theory Spec2Isabelle
  imports Main "HOL-Library.Sublist" "HOL-Library.Char_ord" "HOL-Library.List_Lexorder"
    "HOL-Library.Multiset"
begin

section \<open>Strings and character classes\<close>

text \<open>
  A Python \<open>str\<close> is modelled as a \<open>string\<close>, a list of characters with code points
  below 256. The two character classes the program relies on are those of the Python
  runtime restricted to that range: \<open>str.strip()\<close> without argument removes the
  characters for which \<open>str.isspace\<close> holds, and \<open>\w\<close> in a \<open>str\<close> pattern matches
  the alphanumeric characters and the underscore.
\<close>

definition is_space :: "char \<Rightarrow> bool" where
  "is_space c =
     (let n = (of_char c :: nat)
      in (9 \<le> n \<and> n \<le> 13) \<or> (28 \<le> n \<and> n \<le> 32) \<or> n = 133 \<or> n = 160)"

definition is_word :: "char \<Rightarrow> bool" where
  "is_word c =
     (let n = (of_char c :: nat)
      in (48 \<le> n \<and> n \<le> 57) \<or> (65 \<le> n \<and> n \<le> 90) \<or> n = 95 \<or> (97 \<le> n \<and> n \<le> 122)
         \<or> n = 170 \<or> (178 \<le> n \<and> n \<le> 179) \<or> n = 181 \<or> (185 \<le> n \<and> n \<le> 186)
         \<or> (188 \<le> n \<and> n \<le> 190) \<or> (192 \<le> n \<and> n \<le> 214) \<or> (216 \<le> n \<and> n \<le> 246)
         \<or> (248 \<le> n \<and> n \<le> 255))"

text \<open>The class \<open>[\w-]\<close> of both URL patterns.\<close>

definition word_or_hyphen :: "char \<Rightarrow> bool" where
  "word_or_hyphen c = (is_word c \<or> c = CHR ''-'')"

text \<open>The negated class \<open>[^\w\- .]\<close> of the file-name substitution.\<close>

definition unsafe_name_char :: "char \<Rightarrow> bool" where
  "unsafe_name_char c = (\<not> (is_word c \<or> c = CHR ''-'' \<or> c = CHR '' '' \<or> c = CHR ''.''))"

text \<open>\<open>str.strip()\<close>: drop the leading and the trailing whitespace.\<close>

definition strip :: "string \<Rightarrow> string" where
  "strip s = rev (dropWhile is_space (rev (dropWhile is_space s)))"

text \<open>\<open>str.replace(old, new)\<close> for a one-character \<open>old\<close>.\<close>

definition replace_char :: "'a \<Rightarrow> 'a list \<Rightarrow> 'a list \<Rightarrow> 'a list" where
  "replace_char old new s = concat (map (\<lambda>c. if c = old then new else [c]) s)"

text \<open>\<open>re.sub\<close> with a pattern that is a single character class.\<close>

definition re_sub_class :: "('a \<Rightarrow> bool) \<Rightarrow> 'a list \<Rightarrow> 'a list \<Rightarrow> 'a list" where
  "re_sub_class P repl s = concat (map (\<lambda>c. if P c then repl else [c]) s)"

section \<open>Text beyond U+00FF\<close>

text \<open>
  The title of a video is the one text of the program whose characters above U+00FF
  decide a response: it ends in a header, and a header is encoded as Latin-1. A title is
  therefore modelled as the list of its code points. Whitespace is the full set of
  \<open>str.isspace\<close>; the word characters above U+00FF are those of the interpreter's Unicode
  database, which is a parameter here (\<open>wide\<close>).
\<close>

type_synonym ustring = "nat list"

definition to_ustring :: "string \<Rightarrow> ustring" where
  "to_ustring s = map of_char s"

definition u_is_space :: "nat \<Rightarrow> bool" where
  "u_is_space n =
     ((9 \<le> n \<and> n \<le> 13) \<or> (28 \<le> n \<and> n \<le> 32) \<or> n = 133 \<or> n = 160 \<or> n = 5760
      \<or> (8192 \<le> n \<and> n \<le> 8202) \<or> n = 8232 \<or> n = 8233 \<or> n = 8239 \<or> n = 8287 \<or> n = 12288)"

definition u_is_word :: "(nat \<Rightarrow> bool) \<Rightarrow> nat \<Rightarrow> bool" where
  "u_is_word wide n = (if n < 256 then is_word (char_of n) else wide n)"

text \<open>The negated class \<open>[^\w\- .]\<close> on code points: hyphen 45, space 32, period 46.\<close>

definition u_unsafe_name_char :: "(nat \<Rightarrow> bool) \<Rightarrow> nat \<Rightarrow> bool" where
  "u_unsafe_name_char wide n = (\<not> (u_is_word wide n \<or> n = 45 \<or> n = 32 \<or> n = 46))"

definition u_strip :: "ustring \<Rightarrow> ustring" where
  "u_strip s = rev (dropWhile u_is_space (rev (dropWhile u_is_space s)))"

section \<open>Regular expressions with backtracking\<close>

text \<open>
  The fragment of Python's \<open>re\<close> syntax used by the program: literal text, \<open>x?\<close>,
  concatenation, \<open>x|y\<close>, a character class repeated \<open>{n,}\<close> times and a capturing group.
  Matching at a position returns every way to match, in the order the backtracking
  matcher tries them (greedy first), each with the captured groups and the text that
  follows the match; the first of them is the match Python reports.
\<close>

datatype rx =
    Lit string
  | Opt rx
  | Seq rx rx
  | Alt rx rx
  | AtLeast nat "char \<Rightarrow> bool"
  | Grp rx

fun strip_prefix :: "string \<Rightarrow> string \<Rightarrow> string option" where
  "strip_prefix [] s = Some s"
| "strip_prefix (c # cs) [] = None"
| "strip_prefix (c # cs) (d # ds) = (if c = d then strip_prefix cs ds else None)"

type_synonym rmatch = "string list \<times> string"

fun rx_match :: "rx \<Rightarrow> string \<Rightarrow> rmatch list" where
  "rx_match (Lit l) s = (case strip_prefix l s of None \<Rightarrow> [] | Some r \<Rightarrow> [([], r)])"
| "rx_match (Opt a) s = rx_match a s @ [([], s)]"
| "rx_match (Seq a b) s =
     concat (map (\<lambda>(g1, r1). map (\<lambda>(g2, r2). (g1 @ g2, r2)) (rx_match b r1)) (rx_match a s))"
| "rx_match (Alt a b) s = rx_match a s @ rx_match b s"
| "rx_match (AtLeast n P) s =
     map (\<lambda>k. ([], drop k s)) (rev [n ..< Suc (length (takeWhile P s))])"
| "rx_match (Grp a) s =
     map (\<lambda>(g, r). (take (length s - length r) s # g, r)) (rx_match a s)"

text \<open>\<open>re.match\<close>: the first way to match at the start of the string, if any.\<close>

definition first_of :: "'a list \<Rightarrow> 'a option" where
  "first_of xs = (case xs of [] \<Rightarrow> None | x # _ \<Rightarrow> Some x)"

definition re_match :: "rx \<Rightarrow> string \<Rightarrow> rmatch option" where
  "re_match r s = first_of (rx_match r s)"

text \<open>\<open>re.search\<close>: the match at the leftmost position that has one.\<close>

fun re_search :: "rx \<Rightarrow> string \<Rightarrow> rmatch option" where
  "re_search r [] = re_match r []"
| "re_search r (c # s) =
     (case re_match r (c # s) of Some m \<Rightarrow> Some m | None \<Rightarrow> re_search r s)"

datatype py_error =
    IndexError | KeyError | TypeError | AttributeError | ValueError | UnicodeEncodeError
  | FileNotFoundError | ExtractorError string | RequestError string | OperationalError string

text \<open>\<open>str.encode("latin-1")\<close>, which is how a header value is turned into bytes.\<close>

definition latin1_encode :: "ustring \<Rightarrow> py_error + string" where
  "latin1_encode s = (if list_all (\<lambda>n. n < 256) s then Inr (map char_of s) else Inl UnicodeEncodeError)"

text \<open>\<open>m.group(1)\<close>: the first captured group; \<open>IndexError\<close> when the pattern has none.\<close>

fun group1 :: "rmatch \<Rightarrow> py_error + string" where
  "group1 ([], r) = Inl IndexError"
| "group1 (g # gs, r) = Inr g"

section \<open>URL normalizer\<close>

text \<open>\<open>https?://(?:www\.)?youtube\.com/shorts/([\w-]{6,})\<close>\<close>

definition shorts_re :: rx where
  "shorts_re =
     Seq (Lit ''http'') (Seq (Opt (Lit ''s'')) (Seq (Lit ''://'') (Seq (Opt (Lit ''www.''))
       (Seq (Lit ''youtube.com/shorts/'') (Grp (AtLeast 6 word_or_hyphen))))))"

text \<open>\<open>(https?://(?:www\.)?(?:youtube\.com/watch\?v=|youtu\.be/)[\w-]{6,})\<close>\<close>

definition watch_re :: rx where
  "watch_re =
     Grp (Seq (Lit ''http'') (Seq (Opt (Lit ''s'')) (Seq (Lit ''://'') (Seq (Opt (Lit ''www.''))
       (Seq (Alt (Lit ''youtube.com/watch?v='') (Lit ''youtu.be/''))
         (AtLeast 6 word_or_hyphen))))))"

definition clean_youtube_url :: "string \<Rightarrow> py_error + string" where
  "clean_youtube_url url0 =
     (let url = strip url0 in
      case re_search shorts_re url of
        Some m \<Rightarrow>
          (case group1 m of
             Inl e \<Rightarrow> Inl e
           | Inr g \<Rightarrow> Inr (''https://www.youtube.com/watch?v='' @ g))
      | None \<Rightarrow>
          (case re_search watch_re url of
             Some m \<Rightarrow> group1 m
           | None \<Rightarrow> Inr url))"

text \<open>
  The URL shapes in words: the text that can stand before the video id in a shorts URL
  and in a watch or short-domain URL; a URL of one of the shapes starts a string when
  the string is such a text followed by at least six characters of the id class; a
  string contains one when one starts at some position.
\<close>

definition shorts_heads :: "string list" where
  "shorts_heads =
     [''http://youtube.com/shorts/'', ''https://youtube.com/shorts/'',
      ''http://www.youtube.com/shorts/'', ''https://www.youtube.com/shorts/'']"

definition watch_heads :: "string list" where
  "watch_heads =
     [''http://youtube.com/watch?v='', ''https://youtube.com/watch?v='',
      ''http://www.youtube.com/watch?v='', ''https://www.youtube.com/watch?v='',
      ''http://youtu.be/'', ''https://youtu.be/'',
      ''http://www.youtu.be/'', ''https://www.youtu.be/'']"

definition url_here :: "string list \<Rightarrow> string \<Rightarrow> bool" where
  "url_here heads s =
     (\<exists>h \<in> set heads. \<exists>vid rest.
        s = h @ vid @ rest \<and> 6 \<le> length vid \<and> (\<forall>c \<in> set vid. word_or_hyphen c))"

definition contains_url :: "string list \<Rightarrow> string \<Rightarrow> bool" where
  "contains_url heads s = (\<exists>pre q. s = pre @ q \<and> url_here heads q)"

section \<open>Timestamps\<close>

text \<open>
  A naive \<open>datetime\<close>, as \<open>datetime.utcnow()\<close> returns it. Python compares two of them
  field by field, from the year down to the microsecond.
\<close>

record datetime =
  year :: nat
  month :: nat
  day :: nat
  hour :: nat
  minute :: nat
  second :: nat
  microsecond :: nat

definition valid_datetime :: "datetime \<Rightarrow> bool" where
  "valid_datetime d =
     (1 \<le> year d \<and> year d \<le> 9999 \<and> 1 \<le> month d \<and> month d \<le> 12 \<and> 1 \<le> day d \<and> day d \<le> 31
      \<and> hour d < 24 \<and> minute d < 60 \<and> second d < 60 \<and> microsecond d < 1000000)"

definition dt_fields :: "datetime \<Rightarrow> nat list" where
  "dt_fields d = [year d, month d, day d, hour d, minute d, second d, microsecond d]"

definition dt_less :: "datetime \<Rightarrow> datetime \<Rightarrow> bool" where
  "dt_less a b = (dt_fields a < dt_fields b)"

definition dt_le :: "datetime \<Rightarrow> datetime \<Rightarrow> bool" where
  "dt_le a b = (dt_fields a \<le> dt_fields b)"

text \<open>\<open>"%0wd" % n\<close>: the decimal digits of \<open>n\<close>, padded with zeros to width \<open>w\<close>.\<close>

definition digit :: "nat \<Rightarrow> char" where
  "digit n = char_of (48 + n mod 10)"

fun digits :: "nat \<Rightarrow> nat \<Rightarrow> string" where
  "digits 0 n = []"
| "digits (Suc w) n = digits w (n div 10) @ [digit n]"

function decimal :: "nat \<Rightarrow> string" where
  "decimal n = (if n < 10 then [digit n] else decimal (n div 10) @ [digit n])"
  by pat_completeness auto
termination
  by (relation "measure id") auto

definition zero_pad :: "nat \<Rightarrow> nat \<Rightarrow> string" where
  "zero_pad w n = (if n < 10 ^ w then digits w n else decimal n)"

text \<open>
  \<open>datetime.isoformat()\<close>: \<open>YYYY-MM-DDTHH:MM:SS\<close>, followed by \<open>.ffffff\<close> unless the
  microsecond is zero.
\<close>

definition isoformat :: "datetime \<Rightarrow> string" where
  "isoformat d =
     zero_pad 4 (year d) @ ''-'' @ zero_pad 2 (month d) @ ''-'' @ zero_pad 2 (day d) @ ''T''
     @ zero_pad 2 (hour d) @ '':'' @ zero_pad 2 (minute d) @ '':'' @ zero_pad 2 (second d)
     @ (if microsecond d = 0 then [] else ''.'' @ zero_pad 6 (microsecond d))"

section \<open>Channel cache\<close>

text \<open>
  A row of the table \<open>channels(id PRIMARY KEY, title, thumbnail, saved_at, last_used_at)\<close>.
  The fields carry the names the listing gives them (\<open>id as channel_id\<close>,
  \<open>title as channel_title\<close>). The table is the list of its rows in insertion order.
\<close>

record channel =
  channel_id :: string
  channel_title :: "string option"
  thumbnail :: "string option"
  saved_at :: string
  last_used_at :: string

type_synonym channels = "channel list"

text \<open>SQL \<open>COALESCE(new, old)\<close>.\<close>

fun coalesce :: "'a option \<Rightarrow> 'a option \<Rightarrow> 'a option" where
  "coalesce (Some v) old = Some v"
| "coalesce None old = old"

text \<open>\<open>SELECT id FROM channels WHERE id=?\<close> followed by \<open>fetchone()\<close>.\<close>

definition select_id :: "string \<Rightarrow> channels \<Rightarrow> string option" where
  "select_id cid tbl = map_option channel_id (find (\<lambda>r. channel_id r = cid) tbl)"

text \<open>\<open>UPDATE channels SET title=COALESCE(?, title), ... WHERE id=?\<close>\<close>

definition update_channel :: "string option \<Rightarrow> string option \<Rightarrow> string \<Rightarrow> string \<Rightarrow> channels \<Rightarrow> channels" where
  "update_channel title thumb now cid tbl =
     map (\<lambda>r. if channel_id r = cid
               then r\<lparr>channel_title := coalesce title (channel_title r),
                      thumbnail := coalesce thumb (thumbnail r),
                      last_used_at := now\<rparr>
               else r) tbl"

text \<open>\<open>INSERT INTO channels (id, title, thumbnail, saved_at, last_used_at) VALUES ...\<close>\<close>

definition insert_channel :: "string \<Rightarrow> string option \<Rightarrow> string option \<Rightarrow> string \<Rightarrow> channels \<Rightarrow> channels" where
  "insert_channel cid title thumb now tbl =
     tbl @ [\<lparr>channel_id = cid, channel_title = title, thumbnail = thumb,
              saved_at = now, last_used_at = now\<rparr>]"

text \<open>
  \<open>upsert_channel\<close>, with the clock reading \<open>utcnow\<close> of the call passed in. A channel id
  that is \<open>None\<close> or empty is falsy, and the call returns at once.
\<close>

definition upsert_channel :: "datetime \<Rightarrow> string option \<Rightarrow> string option \<Rightarrow> string option \<Rightarrow> channels \<Rightarrow> channels" where
  "upsert_channel utcnow ch_id title thumb tbl =
     (case ch_id of
        None \<Rightarrow> tbl
      | Some cid \<Rightarrow>
          if cid = [] then tbl
          else
            let now = isoformat utcnow in
            (case select_id cid tbl of
               Some _ \<Rightarrow> update_channel title thumb now cid tbl
             | None \<Rightarrow> insert_channel cid title thumb now tbl))"

text \<open>
  \<open>SELECT ... FROM channels ORDER BY last_used_at DESC\<close>: the column is \<open>TEXT\<close>, compared
  character by character. SQL does not fix the order among rows with equal keys; SQLite
  returns them in the order of insertion, and so does this listing.
\<close>

definition list_channels :: "channels \<Rightarrow> channel list" where
  "list_channels tbl = rev (sort_key last_used_at (rev tbl))"

section \<open>Files\<close>

text \<open>The file system maps a path to the bytes of the file stored there.\<close>

type_synonym filesystem = "string \<rightharpoonup> string"

definition os_path_exists :: "filesystem \<Rightarrow> string \<Rightarrow> bool" where
  "os_path_exists files p = (files p \<noteq> None)"

definition os_remove :: "string \<Rightarrow> filesystem \<Rightarrow> py_error + filesystem" where
  "os_remove p files = (if files p = None then Inl FileNotFoundError else Inr (files(p := None)))"

definition endswith :: "string \<Rightarrow> string \<Rightarrow> bool" where
  "endswith s suf = (strip_prefix (rev suf) (rev s) \<noteq> None)"

text \<open>\<open>str.rfind\<close> for a single character: the last index, or \<open>-1\<close>.\<close>

definition rfind :: "char \<Rightarrow> string \<Rightarrow> int" where
  "rfind c s = int (length (dropWhile (\<lambda>x. x \<noteq> c) (rev s))) - 1"

text \<open>
  \<open>os.path.splitext\<close> (POSIX): split at the last dot of the last path component, unless
  that component has nothing but dots before it.
\<close>

definition splitext :: "string \<Rightarrow> string \<times> string" where
  "splitext p =
     (let sepIndex = rfind CHR ''/'' p; dotIndex = rfind CHR ''.'' p
      in if dotIndex > sepIndex
            \<and> list_ex (\<lambda>k. p ! k \<noteq> CHR ''.'') [nat (sepIndex + 1) ..< nat dotIndex]
         then (take (nat dotIndex) p, drop (nat dotIndex) p)
         else (p, []))"

text \<open>\<open>os.path.join\<close> of two components (POSIX).\<close>

definition os_path_join :: "string \<Rightarrow> string \<Rightarrow> string" where
  "os_path_join a b =
     (if b \<noteq> [] \<and> hd b = CHR ''/'' then b
      else if a = [] \<or> last a = CHR ''/'' then a @ b
      else a @ ''/'' @ b)"

section \<open>The streaming generator\<close>

text \<open>
  \<open>stream_and_delete\<close> is a generator. Before its first \<open>next\<close> no line of it has run;
  between two \<open>next\<close> it is suspended at the \<open>yield\<close>, inside the \<open>with\<close> block, holding
  the open file (here: the bytes not yet read); after its end it is finished.
\<close>

datatype gen_state = Created | Suspended string | Finished

datatype gen_event = Yield string | StopIteration | Raise py_error

definition chunk_size :: nat where
  "chunk_size = 1024 * 1024"

text \<open>
  One turn of the loop \<open>while chunk := f.read(1024 * 1024)\<close>: a non-empty chunk is
  yielded; an empty one ends the loop and the \<open>with\<close> block, and \<open>os.remove\<close> runs with
  its exception swallowed.
\<close>

definition read_chunk :: "string \<Rightarrow> filesystem \<Rightarrow> string \<Rightarrow> gen_event \<times> filesystem \<times> gen_state" where
  "read_chunk final_path files unread =
     (let chunk = take chunk_size unread
      in if chunk \<noteq> [] then (Yield chunk, files, Suspended (drop chunk_size unread))
         else (StopIteration,
               (case os_remove final_path files of Inl _ \<Rightarrow> files | Inr files' \<Rightarrow> files'),
               Finished))"

text \<open>\<open>next(gen)\<close>\<close>

fun stream_and_delete_next :: "string \<Rightarrow> filesystem \<Rightarrow> gen_state \<Rightarrow> gen_event \<times> filesystem \<times> gen_state" where
  "stream_and_delete_next final_path files Created =
     (case files final_path of
        None \<Rightarrow> (Raise FileNotFoundError, files, Finished)
      | Some content \<Rightarrow> read_chunk final_path files content)"
| "stream_and_delete_next final_path files (Suspended unread) = read_chunk final_path files unread"
| "stream_and_delete_next final_path files Finished = (StopIteration, files, Finished)"

text \<open>
  \<open>gen.close()\<close>, which is what happens to the generator when the client disconnects:
  \<open>GeneratorExit\<close> is raised at the \<open>yield\<close>, the \<open>with\<close> block closes the file and the
  exception leaves the function; the statements after the \<open>with\<close> block do not run.
\<close>

fun stream_and_delete_close :: "string \<Rightarrow> filesystem \<Rightarrow> gen_state \<Rightarrow> filesystem \<times> gen_state" where
  "stream_and_delete_close final_path files Created = (files, Finished)"
| "stream_and_delete_close final_path files (Suspended unread) = (files, Finished)"
| "stream_and_delete_close final_path files Finished = (files, Finished)"

text \<open>The bytes still to come from a generator; it decreases with every chunk.\<close>

fun unread_size :: "string \<Rightarrow> filesystem \<Rightarrow> gen_state \<Rightarrow> nat" where
  "unread_size final_path files Created =
     (case files final_path of None \<Rightarrow> 0 | Some content \<Rightarrow> Suc (length content))"
| "unread_size final_path files (Suspended unread) = length unread"
| "unread_size final_path files Finished = 0"

text \<open>
  The client that reads to the end: \<open>next\<close> until the generator stops or raises. The
  result is the chunks received, the exception if one ended the stream, and the file
  system afterwards.
\<close>

function read_to_end :: "string \<Rightarrow> filesystem \<Rightarrow> gen_state \<Rightarrow> string list \<times> py_error option \<times> filesystem" where
  "read_to_end final_path files g =
     (case stream_and_delete_next final_path files g of
        (Yield chunk, files', g') \<Rightarrow>
          (case read_to_end final_path files' g' of
             (chunks, err, files'') \<Rightarrow> (chunk # chunks, err, files''))
      | (StopIteration, files', g') \<Rightarrow> ([], None, files')
      | (Raise e, files', g') \<Rightarrow> ([], Some e, files'))"
  by pat_completeness auto
termination
proof (relation "measure (\<lambda>(p, files, g). unread_size p files g)")
  show "wf (measure (\<lambda>(p, files, g). unread_size p files g))"
    by simp
next
  fix final_path :: string and files files' :: filesystem and g g' :: gen_state
    and x :: gen_event and y :: "filesystem \<times> gen_state" and chunk :: string
  assume step: "(x, y) = stream_and_delete_next final_path files g"
    and x: "x = Yield chunk" and y: "(files', g') = y"
  have yield: "stream_and_delete_next final_path files g = (Yield chunk, files', g')"
    using step x y by simp
  have shorter: "length (drop chunk_size u) < length u" if "take chunk_size u \<noteq> []" for u :: string
    using that by (cases u) (simp_all add: chunk_size_def)
  have "unread_size final_path files' g' < unread_size final_path files g"
  proof (cases g)
    case Created
    with yield show ?thesis
      using shorter
      by (auto simp: read_chunk_def Let_def less_Suc_eq split: option.splits if_splits)
  next
    case (Suspended unread)
    with yield show ?thesis
      using shorter
      by (auto simp: read_chunk_def Let_def split: if_splits)
  next
    case Finished
    with yield show ?thesis by simp
  qed
  then show "((final_path, files', g'), final_path, files, g)
      \<in> measure (\<lambda>(p, files, g). unread_size p files g)"
    by simp
qed

declare read_to_end.simps [simp del]

text \<open>The client that disconnects after \<open>n\<close> chunks: \<open>n\<close> times \<open>next\<close>, then \<open>close\<close>.\<close>

fun read_then_disconnect :: "nat \<Rightarrow> string \<Rightarrow> filesystem \<Rightarrow> gen_state \<Rightarrow> string list \<times> py_error option \<times> filesystem" where
  "read_then_disconnect 0 final_path files g = ([], None, fst (stream_and_delete_close final_path files g))"
| "read_then_disconnect (Suc n) final_path files g =
     (case stream_and_delete_next final_path files g of
        (Yield chunk, files', g') \<Rightarrow>
          (case read_then_disconnect n final_path files' g' of
             (chunks, err, files'') \<Rightarrow> (chunk # chunks, err, files''))
      | (StopIteration, files', g') \<Rightarrow> ([], None, files')
      | (Raise e, files', g') \<Rightarrow> ([], Some e, files'))"

section \<open>External collaborators and the state of the service\<close>

text \<open>
  The value yt-dlp gives under \<open>title\<close>: a \<open>str\<close>, or some other object, of which the
  handler only uses the truth value before \<open>.strip()\<close> fails on it.
\<close>

datatype py_value = PyStr ustring | PyOther bool

text \<open>
  The record \<open>extract_info\<close> builds from what yt-dlp returns; a key that yt-dlp leaves
  out reads as \<open>None\<close>.
\<close>

record video_info =
  info_id :: "string option"
  info_title :: "py_value option"
  info_duration :: "nat option"
  info_thumbnail :: "string option"
  info_uploader :: "string option"
  info_channel_id :: "string option"
  info_channel_url :: "string option"
  info_upload_date :: "string option"
  info_webpage_url :: "string option"

text \<open>
  The replies of the two YouTube Data API resources, decoded. A field that the handler
  reads with \<open>[...]\<close> is \<open>None\<close> when the key is missing (a \<open>KeyError\<close> in the handler);
  a thumbnail variant is the dictionary found under its name.
\<close>

record channel_item =
  related_uploads :: "string option"
  snippet_title :: "string option"
  snippet_thumb_default_url :: "string option"

record playlist_item =
  item_video_id :: "string option"
  item_title :: "string option"
  item_thumb_medium :: "(string \<times> string) list option"
  item_thumb_default :: "(string \<times> string) list option"
  item_published_at :: "string option"
  item_channel_title :: "string option"

record playlist_page =
  page_items :: "playlist_item list"
  next_page_token :: "string option"

record 'a http_reply =
  status_code :: nat
  reply_text :: string
  reply_json :: 'a

datatype api_call =
    GetChannels string string
  | GetPlaylistItems string int string string

text \<open>
  What the process reads from its surroundings during one request: the configuration
  read at start-up, the clock, the random file name, yt-dlp and the HTTP client, the
  exception SQLite raises when the database is used during the request (if it raises
  one: a locked or unwritable database), and the Unicode database's test for the word
  characters above U+00FF. The downloader receives the URL, the output template and the
  file system, and returns the file system it leaves with either its exception or the
  path \<open>prepare_filename\<close> reports.
\<close>

record env =
  YOUTUBE_API_KEY :: "string option"
  DOWNLOADS_DIR :: string
  utcnow :: datetime
  uuid4_hex :: string
  sqlite_error :: "py_error option"
  unicode_isalnum :: "nat \<Rightarrow> bool"
  ydl_extract_info :: "string \<Rightarrow> py_error + video_info"
  ydl_download :: "string \<Rightarrow> string \<Rightarrow> filesystem \<Rightarrow> filesystem \<times> (py_error + string)"
  get_channels :: "string \<Rightarrow> string \<Rightarrow> py_error + channel_item list http_reply"
  get_playlist_items :: "string \<Rightarrow> int \<Rightarrow> string \<Rightarrow> string \<Rightarrow> py_error + playlist_page http_reply"

text \<open>What a request can change: the table, the files, and the calls made to the API.\<close>

record world =
  db :: channels
  files_of :: filesystem
  api_calls :: "api_call list"

definition extract_info :: "env \<Rightarrow> string \<Rightarrow> py_error + video_info" where
  "extract_info e url = ydl_extract_info e url"

section \<open>Download pipeline\<close>

text \<open>
  A call of \<open>upsert_channel\<close> in a request. An id that is \<open>None\<close> or empty returns
  before the database is opened. Otherwise the database is used, and an exception of
  SQLite leaves the function before \<open>commit\<close>, so that the table is as it was.
\<close>

definition upsert_channel_call :: "env \<Rightarrow> string option \<Rightarrow> string option \<Rightarrow> string option \<Rightarrow> channels
    \<Rightarrow> py_error + channels" where
  "upsert_channel_call e ch_id title thumb tbl =
     (if ch_id = None \<or> ch_id = Some [] then Inr tbl
      else case sqlite_error e of
             Some err \<Rightarrow> Inl err
           | None \<Rightarrow> Inr (upsert_channel (utcnow e) ch_id title thumb tbl))"

text \<open>
  \<open>(info.get("title") or "video").strip().replace("\n", " ")[:100]\<close>: a falsy title
  gives way to \<open>video\<close>; a truthy value that is not a \<open>str\<close> has no \<open>strip\<close>.
\<close>

definition title_for_name_of :: "py_value option \<Rightarrow> py_error + ustring" where
  "title_for_name_of title =
     (let chosen =
        (case title of
           None \<Rightarrow> Inr (to_ustring ''video'')
         | Some (PyStr t) \<Rightarrow> Inr (if t = [] then to_ustring ''video'' else t)
         | Some (PyOther truthy) \<Rightarrow> if truthy then Inl AttributeError else Inr (to_ustring ''video''))
      in case chosen of
           Inl err \<Rightarrow> Inl err
         | Inr t \<Rightarrow> Inr (take 100 (replace_char 10 [32] (u_strip t))))"

text \<open>\<open>re.sub(r"[^\w\- .]", "_", title_for_name) + ".mp4"\<close>\<close>

definition filename_safe_of :: "(nat \<Rightarrow> bool) \<Rightarrow> ustring \<Rightarrow> ustring" where
  "filename_safe_of wide title_for_name =
     re_sub_class (u_unsafe_name_char wide) (to_ustring ''_'') title_for_name @ to_ustring ''.mp4''"

text \<open>
  The inner \<open>try\<close> of \<open>download\<close>: the metadata, the channel upsert and the title for the
  file name, in this order. An exception of any of the three is caught, and leaves no
  metadata and the title \<open>video\<close>; what the upsert has committed before stays.
\<close>

definition fetch_metadata :: "env \<Rightarrow> channels \<Rightarrow> string \<Rightarrow> channels \<times> video_info option \<times> ustring" where
  "fetch_metadata e tbl url =
     (case extract_info e url of
        Inl _ \<Rightarrow> (tbl, None, to_ustring ''video'')
      | Inr info \<Rightarrow>
          (case upsert_channel_call e (info_channel_id info) (info_uploader info) (info_thumbnail info) tbl of
             Inl _ \<Rightarrow> (tbl, None, to_ustring ''video'')
           | Inr tbl' \<Rightarrow>
               (case title_for_name_of (info_title info) of
                  Inl _ \<Rightarrow> (tbl', None, to_ustring ''video'')
                | Inr title_for_name \<Rightarrow> (tbl', Some info, title_for_name))))"

text \<open>The merged case: a reported path that does not end in \<open>.mp4\<close> is replaced by the
  \<open>.mp4\<close> path beside it when that file exists.\<close>

definition resolve_final_path :: "filesystem \<Rightarrow> string \<Rightarrow> string" where
  "resolve_final_path files final_path =
     (if \<not> endswith final_path ''.mp4''
      then (let merged = fst (splitext final_path) @ ''.mp4''
            in if os_path_exists files merged then merged else final_path)
      else final_path)"

record streaming_response =
  media_type :: string
  content_disposition :: string
  body_path :: string
  body :: gen_state

text \<open>
  \<open>download\<close>: \<open>Inl e\<close> is the response \<open>JSONResponse({"error": str(e)}, status_code=500)\<close>
  of the outer \<open>except\<close>; \<open>Inr\<close> is the streaming response, whose body is the generator
  over the resolved path, not yet started. \<open>StreamingResponse\<close> encodes its headers when
  it is built, inside the \<open>try\<close>: a file name with a character above U+00FF ends the
  request in the \<open>except\<close>, after the file was written.
\<close>

definition download :: "env \<Rightarrow> world \<Rightarrow> string \<Rightarrow> world \<times> (py_error + streaming_response)" where
  "download e w url0 =
     (case clean_youtube_url url0 of
        Inl err \<Rightarrow> (w, Inl err)
      | Inr url \<Rightarrow>
          (case fetch_metadata e (db w) url of
             (tbl, info, title_for_name) \<Rightarrow>
               let w1 = w\<lparr>db := tbl\<rparr>;
                   out_base = os_path_join (DOWNLOADS_DIR e) (uuid4_hex e)
               in (case ydl_download e url (out_base @ ''.%(ext)s'') (files_of w1) of
                     (files, Inl err) \<Rightarrow> (w1\<lparr>files_of := files\<rparr>, Inl err)
                   | (files, Inr reported) \<Rightarrow>
                       let final_path = resolve_final_path files reported;
                           filename_safe = filename_safe_of (unicode_isalnum e) title_for_name
                       in (case latin1_encode (to_ustring ''attachment; filename='' @ filename_safe) of
                             Inl err \<Rightarrow> (w1\<lparr>files_of := files\<rparr>, Inl err)
                           | Inr header \<Rightarrow>
                               (w1\<lparr>files_of := files\<rparr>,
                                Inr \<lparr>media_type = ''video/mp4'',
                                     content_disposition = header,
                                     body_path = final_path,
                                     body = Created\<rparr>)))))"

text \<open>The request seen from a client that reads the whole body, and from one that
  disconnects after \<open>n\<close> chunks.\<close>

definition serve_body :: "(string \<Rightarrow> filesystem \<Rightarrow> gen_state \<Rightarrow> string list \<times> py_error option \<times> filesystem)
    \<Rightarrow> world \<times> (py_error + streaming_response) \<Rightarrow> world" where
  "serve_body client res =
     (case res of
        (w, Inl err) \<Rightarrow> w
      | (w, Inr resp) \<Rightarrow>
          (case client (body_path resp) (files_of w) (body resp) of
             (chunks, err, files) \<Rightarrow> w\<lparr>files_of := files\<rparr>))"

section \<open>Channel-video lister\<close>

datatype http_error = HTTPException nat string | Uncaught py_error

record video_entry =
  videoId :: "string option"
  entry_title :: "string option"
  entry_thumbnail :: "string option"
  publishedAt :: "string option"
  channelTitle :: "string option"

record channel_summary =
  summary_id :: string
  summary_title :: string
  summary_thumbnail :: string

record channel_videos_result =
  result_channel :: channel_summary
  result_videos :: "video_entry list"
  nextPageToken :: "string option"

text \<open>\<open>(thumbs.get("medium") or thumbs.get("default") or {}).get("url")\<close>\<close>

definition pick_thumbnail :: "playlist_item \<Rightarrow> string option" where
  "pick_thumbnail it =
     (let nonempty = (\<lambda>d. case d of None \<Rightarrow> False | Some kv \<Rightarrow> kv \<noteq> []);
          chosen = (if nonempty (item_thumb_medium it) then item_thumb_medium it
                    else if nonempty (item_thumb_default it) then item_thumb_default it
                    else Some [])
      in case chosen of None \<Rightarrow> None | Some kv \<Rightarrow> map_of kv ''url'')"

definition video_of_item :: "playlist_item \<Rightarrow> video_entry" where
  "video_of_item it =
     \<lparr>videoId = item_video_id it, entry_title = item_title it, entry_thumbnail = pick_thumbnail it,
      publishedAt = item_published_at it, channelTitle = item_channel_title it\<rparr>"

definition channel_videos :: "env \<Rightarrow> world \<Rightarrow> string \<Rightarrow> string option \<Rightarrow> int
    \<Rightarrow> world \<times> (http_error + channel_videos_result)" where
  "channel_videos e w chan_id page_token max_results =
     (case (case YOUTUBE_API_KEY e of None \<Rightarrow> None | Some k \<Rightarrow> if k = [] then None else Some k) of
        None \<Rightarrow> (w, Inl (HTTPException 400 ''Server missing YT_API_KEY env var for channel listing''))
      | Some key \<Rightarrow>
          let w1 = w\<lparr>api_calls := api_calls w @ [GetChannels chan_id key]\<rparr>
          in (case get_channels e chan_id key of
                Inl err \<Rightarrow> (w1, Inl (Uncaught err))
              | Inr ch \<Rightarrow>
                  if status_code ch \<noteq> 200
                  then (w1, Inl (HTTPException (status_code ch) (reply_text ch)))
                  else (case reply_json ch of
                          [] \<Rightarrow> (w1, Inl (HTTPException 404 ''Channel not found''))
                        | item # _ \<Rightarrow>
                            (case (related_uploads item, snippet_title item, snippet_thumb_default_url item) of
                               (Some uploads, Some ch_title, Some ch_thumb) \<Rightarrow>
                                 let token = (case page_token of None \<Rightarrow> [] | Some t \<Rightarrow> t);
                                     w2 = w1\<lparr>api_calls := api_calls w1
                                            @ [GetPlaylistItems uploads max_results token key]\<rparr>
                                 in (case get_playlist_items e uploads max_results token key of
                                       Inl err \<Rightarrow> (w2, Inl (Uncaught err))
                                     | Inr pl \<Rightarrow>
                                         if status_code pl \<noteq> 200
                                         then (w2, Inl (HTTPException (status_code pl) (reply_text pl)))
                                         else
                                           let data = reply_json pl;
                                               videos = map video_of_item (page_items data)
                                           in (case upsert_channel_call e (Some chan_id)
                                                       (Some ch_title) (Some ch_thumb) (db w2) of
                                                 Inl err \<Rightarrow> (w2, Inl (Uncaught err))
                                               | Inr tbl \<Rightarrow>
                                                   (w2\<lparr>db := tbl\<rparr>,
                                                    Inr \<lparr>result_channel =
                                                           \<lparr>summary_id = chan_id, summary_title = ch_title,
                                                            summary_thumbnail = ch_thumb\<rparr>,
                                                         result_videos = videos,
                                                         nextPageToken = next_page_token data\<rparr>)))
                             | _ \<Rightarrow> (w1, Inl (Uncaught KeyError))))))"

section \<open>Sequences of upserts\<close>

text \<open>One call of \<open>upsert_channel\<close>: the clock reading at the call, and its arguments.\<close>

record upsert_call =
  call_time :: datetime
  call_id :: "string option"
  call_title :: "string option"
  call_thumb :: "string option"

fun upsert_all :: "upsert_call list \<Rightarrow> channels \<Rightarrow> channels" where
  "upsert_all [] tbl = tbl"
| "upsert_all (c # cs) tbl =
     upsert_all cs (upsert_channel (call_time c) (call_id c) (call_title c) (call_thumb c) tbl)"

text \<open>The invariant of the table: one row per channel id, and no row used before it
  was saved.\<close>

definition channels_invariant :: "channels \<Rightarrow> bool" where
  "channels_invariant tbl =
     (distinct (map channel_id tbl) \<and> (\<forall>r \<in> set tbl. saved_at r \<le> last_used_at r))"

text \<open>The rows of a channel id.\<close>

definition rows_of :: "string \<Rightarrow> channels \<Rightarrow> channel list" where
  "rows_of cid tbl = filter (\<lambda>r. channel_id r = cid) tbl"

section \<open>The file name as the specification words it\<close>




section \<open>Sample requests\<close>

definition sample_now :: datetime where
  "sample_now = \<lparr>year = 2024, month = 3, day = 9, hour = 7, minute = 5, second = 0, microsecond = 0\<rparr>"

definition sample_later :: datetime where
  "sample_later = \<lparr>year = 2024, month = 3, day = 9, hour = 7, minute = 5, second = 0, microsecond = 1500\<rparr>"

definition sample_latest :: datetime where
  "sample_latest = \<lparr>year = 2024, month = 3, day = 10, hour = 0, minute = 0, second = 0, microsecond = 0\<rparr>"

definition sample_info :: video_info where
  "sample_info =
     \<lparr>info_id = Some ''abc123X'', info_title = Some (PyStr (to_ustring ''Launch: day 1/2'')), info_duration = Some 95,
      info_thumbnail = Some ''http://t/1.jpg'', info_uploader = Some ''Acme'',
      info_channel_id = Some ''UCxyz'', info_channel_url = None, info_upload_date = None,
      info_webpage_url = Some ''https://www.youtube.com/watch?v=abc123X''\<rparr>"

text \<open>A part of the Unicode database: the CJK ideographs U+4E00 to U+9FA5 are word
  characters.\<close>

definition sample_wide :: "nat \<Rightarrow> bool" where
  "sample_wide n = (19968 \<le> n \<and> n \<le> 40869)"

text \<open>A service without API key whose metadata fetch fails and whose downloader writes
  a three-byte file.\<close>

definition sample_env :: env where
  "sample_env =
     \<lparr>YOUTUBE_API_KEY = None,
      DOWNLOADS_DIR = ''/srv/downloads'',
      utcnow = sample_now,
      uuid4_hex = ''0f3a'',
      sqlite_error = None,
      unicode_isalnum = sample_wide,
      ydl_extract_info = (\<lambda>url. Inl (ExtractorError ''Video unavailable'')),
      ydl_download = (\<lambda>url tmpl files.
         (files(''/srv/downloads/0f3a.mp4'' \<mapsto> ''abc''), Inr ''/srv/downloads/0f3a.mp4'')),
      get_channels = (\<lambda>cid key. Inl (RequestError ''unreachable'')),
      get_playlist_items = (\<lambda>pl n tok key. Inl (RequestError ''unreachable''))\<rparr>"



definition sample_env_wide :: env where
  "sample_env_wide =
     sample_env\<lparr>ydl_extract_info := (\<lambda>url. Inr (sample_info\<lparr>info_title := Some (PyStr [26085, 26412])\<rparr>))\<rparr>"

definition sample_world :: world where
  "sample_world = \<lparr>db = [], files_of = Map.empty, api_calls = []\<rparr>"

definition sample_row :: channel where
  "sample_row =
     \<lparr>channel_id = ''UCxyz'', channel_title = Some ''Acme'', thumbnail = Some ''http://t/1.jpg'',
      saved_at = ''2024-03-09T07:05:00'', last_used_at = ''2024-03-09T07:05:00''\<rparr>"

definition sample_row2 :: channel where
  "sample_row2 =
     \<lparr>channel_id = ''UCabc'', channel_title = Some ''Beta'', thumbnail = None,
      saved_at = ''2024-03-09T07:05:00.001500'', last_used_at = ''2024-03-09T07:05:00.001500''\<rparr>"

definition sample_row3 :: channel where
  "sample_row3 =
     \<lparr>channel_id = ''UCdef'', channel_title = None, thumbnail = Some ''http://t/3.jpg'',
      saved_at = ''2024-03-09T07:05:00'', last_used_at = ''2024-03-10T00:00:00''\<rparr>"

definition sample_first_call :: upsert_call where
  "sample_first_call =
     \<lparr>call_time = sample_now, call_id = Some ''UCxyz'', call_title = Some ''Acme'',
      call_thumb = Some ''http://t/1.jpg''\<rparr>"

definition sample_calls :: "upsert_call list" where
  "sample_calls =
     [\<lparr>call_time = sample_later, call_id = Some ''UCxyz'', call_title = None,
       call_thumb = Some ''http://t/2.jpg''\<rparr>,
      \<lparr>call_time = sample_latest, call_id = Some ''UCabc'', call_title = Some ''Beta'',
       call_thumb = None\<rparr>]"


section \<open>Character classes and samples, evaluated\<close>

lemmas class_defs = is_space_def is_word_def word_or_hyphen_def unsafe_name_char_def

lemma sample_clean:
  "clean_youtube_url ''https://youtu.be/abc123X'' = Inr ''https://youtu.be/abc123X''"
  by (simp add: clean_youtube_url_def strip_def class_defs shorts_re_def watch_re_def re_match_def
      first_of_def)

section \<open>URL normalizer: what the two patterns match\<close>

subsection \<open>Literal text and sequencing\<close>

lemma strip_prefix_Some: "strip_prefix l s = Some t \<longleftrightarrow> s = l @ t"
  by (induction l s rule: strip_prefix.induct) auto

lemma strip_prefix_append [simp]: "strip_prefix l (l @ t) = Some t"
  by (simp add: strip_prefix_Some)

lemma seq_lit:
  "rx_match (Seq (Lit l) r) s = (case strip_prefix l s of None \<Rightarrow> [] | Some t \<Rightarrow> rx_match r t)"
  by (simp split: option.splits)

lemma seq_opt_lit:
  "rx_match (Seq (Opt (Lit l)) r) s
     = (case strip_prefix l s of None \<Rightarrow> [] | Some t \<Rightarrow> rx_match r t) @ rx_match r s"
  by (simp split: option.splits)

lemma seq_alt_lit:
  "rx_match (Seq (Alt (Lit a) (Lit b)) r) s
     = (case strip_prefix a s of None \<Rightarrow> [] | Some t \<Rightarrow> rx_match r t)
       @ (case strip_prefix b s of None \<Rightarrow> [] | Some t \<Rightarrow> rx_match r t)"
  by (simp split: option.splits)

subsection \<open>The repeated class and the group around it\<close>

lemma at_least_Nil: "rx_match (AtLeast n P) t = [] \<longleftrightarrow> length (takeWhile P t) < n"
  by auto

lemma at_least_Cons:
  assumes "rx_match (AtLeast n P) t = m # ms"
  shows "m = ([], dropWhile P t) \<and> n \<le> length (takeWhile P t)"
proof -
  let ?k = "length (takeWhile P t)"
  have le: "n \<le> ?k" using assms by (cases "n \<le> ?k") auto
  then have "rev [n ..< Suc ?k] = ?k # rev [n ..< ?k]" by simp
  then have "m = ([], drop ?k t)" using assms by simp
  then show ?thesis using le by (simp add: dropWhile_eq_drop)
qed

lemma at_least_hd:
  "n \<le> length (takeWhile P t) \<Longrightarrow> \<exists>ms. rx_match (AtLeast n P) t = ([], dropWhile P t) # ms"
  by (cases "rx_match (AtLeast n P) t") (auto dest: at_least_Cons simp del: rx_match.simps simp: at_least_Nil)

lemma grp_at_least_Nil: "rx_match (Grp (AtLeast n P)) t = [] \<longleftrightarrow> length (takeWhile P t) < n"
  by auto

lemma take_minus_dropWhile: "take (length t - length (dropWhile P t)) t = takeWhile P t"
proof -
  have "length (takeWhile P t @ dropWhile P t) = length t"
    by simp
  then have "length t - length (dropWhile P t) = length (takeWhile P t)"
    unfolding length_append by linarith
  then show ?thesis using takeWhile_eq_take [of P t] by simp
qed

lemma grp_at_least_Cons:
  assumes "rx_match (Grp (AtLeast n P)) t = m # ms"
  shows "m = ([takeWhile P t], dropWhile P t) \<and> n \<le> length (takeWhile P t)"
proof -
  obtain m' ms' where a: "rx_match (AtLeast n P) t = m' # ms'"
    using assms by (cases "rx_match (AtLeast n P) t") (auto simp del: rx_match.simps(5))
  then have m': "m' = ([], dropWhile P t)" "n \<le> length (takeWhile P t)"
    using at_least_Cons by blast+
  have "m = (take (length t - length (dropWhile P t)) t # [], dropWhile P t)"
    using assms unfolding rx_match.simps(6) a m'(1) by simp
  then show ?thesis using m'(2) by (simp add: take_minus_dropWhile)
qed

lemma grp_at_least_hd:
  "n \<le> length (takeWhile P t) \<Longrightarrow> \<exists>ms. rx_match (Grp (AtLeast n P)) t = ([takeWhile P t], dropWhile P t) # ms"
  by (cases "rx_match (Grp (AtLeast n P)) t")
     (auto dest: grp_at_least_Cons simp del: rx_match.simps simp: grp_at_least_Nil)

subsection \<open>The first way to match\<close>

lemma first_of_append: "first_of (xs @ ys) = (case first_of xs of Some m \<Rightarrow> Some m | None \<Rightarrow> first_of ys)"
  by (cases xs) (simp_all add: first_of_def)

lemma first_of_case_option:
  "first_of (case x of None \<Rightarrow> [] | Some t \<Rightarrow> f t) = (case x of None \<Rightarrow> None | Some t \<Rightarrow> first_of (f t))"
  by (cases x) (simp_all add: first_of_def)

lemma first_of_grp_at_least:
  "first_of (rx_match (Grp (AtLeast n P)) t)
     = (if n \<le> length (takeWhile P t) then Some ([takeWhile P t], dropWhile P t) else None)"
proof (cases "n \<le> length (takeWhile P t)")
  case True
  then show ?thesis using grp_at_least_hd [OF True] by (auto simp: first_of_def simp del: rx_match.simps)
next
  case False
  then have "rx_match (Grp (AtLeast n P)) t = []" by (simp add: grp_at_least_Nil del: rx_match.simps)
  then show ?thesis using False by (simp add: first_of_def)
qed

lemma first_of_at_least:
  "first_of (rx_match (AtLeast n P) t)
     = (if n \<le> length (takeWhile P t) then Some ([], dropWhile P t) else None)"
proof (cases "n \<le> length (takeWhile P t)")
  case True
  then show ?thesis using at_least_hd [OF True] by (auto simp: first_of_def simp del: rx_match.simps)
next
  case False
  then have "rx_match (AtLeast n P) t = []" by (simp add: at_least_Nil del: rx_match.simps)
  then show ?thesis using False by (simp add: first_of_def)
qed

lemma first_of_map:
  "first_of (map f xs) = map_option f (first_of xs)"
  by (cases xs) (simp_all add: first_of_def)

lemmas first_simps = first_of_append first_of_case_option first_of_grp_at_least first_of_at_least

subsection \<open>What each pattern matches at a position\<close>

lemma re_match_shorts_sound:
  assumes "re_match shorts_re s = Some m"
  shows "\<exists>h \<in> set shorts_heads. \<exists>t. s = h @ t \<and> 6 \<le> length (takeWhile word_or_hyphen t)
           \<and> m = ([takeWhile word_or_hyphen t], dropWhile word_or_hyphen t)"
  using assms
  unfolding re_match_def shorts_re_def seq_lit seq_opt_lit first_simps
  by (auto split: option.splits if_splits simp: strip_prefix_Some shorts_heads_def)

lemma re_match_shorts_complete:
  assumes "h \<in> set shorts_heads" and "6 \<le> length (takeWhile word_or_hyphen t)"
  shows "re_match shorts_re (h @ t) = Some ([takeWhile word_or_hyphen t], dropWhile word_or_hyphen t)"
  using assms
  unfolding re_match_def shorts_re_def seq_lit seq_opt_lit first_simps
  by (auto simp: shorts_heads_def)

lemma take_head_takeWhile:
  "take (length (h @ t) - length (dropWhile P t)) (h @ t) = h @ takeWhile P t"
proof -
  have "length (takeWhile P t @ dropWhile P t) = length t"
    by simp
  then have "length (h @ t) - length (dropWhile P t) = length h + length (takeWhile P t)"
    unfolding length_append by linarith
  then show ?thesis using takeWhile_eq_take [of P t] by simp
qed

lemma watch_inner_sound:
  assumes "first_of (rx_match (Seq (Lit ''http'') (Seq (Opt (Lit ''s'')) (Seq (Lit ''://'')
      (Seq (Opt (Lit ''www.'')) (Seq (Alt (Lit ''youtube.com/watch?v='') (Lit ''youtu.be/''))
         (AtLeast 6 word_or_hyphen)))))) s) = Some m"
  shows "\<exists>h \<in> set watch_heads. \<exists>t. s = h @ t \<and> 6 \<le> length (takeWhile word_or_hyphen t)
           \<and> m = ([], dropWhile word_or_hyphen t)"
  using assms
  unfolding seq_lit seq_opt_lit seq_alt_lit first_simps
  by (auto split: option.splits if_splits simp: strip_prefix_Some watch_heads_def)

lemma watch_inner_complete:
  assumes "h \<in> set watch_heads" and "6 \<le> length (takeWhile word_or_hyphen t)"
  shows "first_of (rx_match (Seq (Lit ''http'') (Seq (Opt (Lit ''s'')) (Seq (Lit ''://'')
      (Seq (Opt (Lit ''www.'')) (Seq (Alt (Lit ''youtube.com/watch?v='') (Lit ''youtu.be/''))
         (AtLeast 6 word_or_hyphen)))))) (h @ t)) = Some ([], dropWhile word_or_hyphen t)"
  using assms
  unfolding seq_lit seq_opt_lit seq_alt_lit first_simps
  by (auto simp: watch_heads_def)

lemma re_match_watch_sound:
  assumes "re_match watch_re s = Some m"
  shows "\<exists>h \<in> set watch_heads. \<exists>t. s = h @ t \<and> 6 \<le> length (takeWhile word_or_hyphen t)
           \<and> m = ([h @ takeWhile word_or_hyphen t], dropWhile word_or_hyphen t)"
proof -
  from assms obtain m' where m': "first_of (rx_match (Seq (Lit ''http'') (Seq (Opt (Lit ''s'')) (Seq (Lit ''://'')
      (Seq (Opt (Lit ''www.'')) (Seq (Alt (Lit ''youtube.com/watch?v='') (Lit ''youtu.be/''))
         (AtLeast 6 word_or_hyphen)))))) s) = Some m'"
    and m: "m = (take (length s - length (snd m')) s # fst m', snd m')"
    unfolding re_match_def watch_re_def rx_match.simps(6) first_of_map
    by (auto simp: case_prod_beta)
  from watch_inner_sound [OF m'] obtain h t where ht: "h \<in> set watch_heads" "s = h @ t"
      "6 \<le> length (takeWhile word_or_hyphen t)" "m' = ([], dropWhile word_or_hyphen t)"
    by blast
  have "m = ([h @ takeWhile word_or_hyphen t], dropWhile word_or_hyphen t)"
    unfolding m ht(2,4) by (simp only: fst_conv snd_conv take_head_takeWhile)
  with ht show ?thesis by blast
qed

lemma re_match_watch_complete:
  assumes "h \<in> set watch_heads" and "6 \<le> length (takeWhile word_or_hyphen t)"
  shows "re_match watch_re (h @ t) = Some ([h @ takeWhile word_or_hyphen t], dropWhile word_or_hyphen t)"
  unfolding re_match_def watch_re_def rx_match.simps(6) first_of_map watch_inner_complete [OF assms]
  by (simp only: option.map case_prod_conv take_head_takeWhile)

subsection \<open>Searching from the left\<close>

lemma re_search_None: "re_search r s = None \<longleftrightarrow> (\<forall>p q. s = p @ q \<longrightarrow> re_match r q = None)"
proof (induction s)
  case Nil
  then show ?case by simp
next
  case (Cons c s)
  show ?case
  proof
    assume n: "re_search r (c # s) = None"
    then have here: "re_match r (c # s) = None" and later: "re_search r s = None"
      by (auto split: option.splits)
    show "\<forall>p q. c # s = p @ q \<longrightarrow> re_match r q = None"
    proof (intro allI impI)
      fix p q assume "c # s = p @ q"
      then show "re_match r q = None"
        using here later Cons.IH by (cases p) auto
    qed
  next
    assume a: "\<forall>p q. c # s = p @ q \<longrightarrow> re_match r q = None"
    then have "re_match r (c # s) = None" by (metis append_Nil)
    moreover have "\<forall>p q. s = p @ q \<longrightarrow> re_match r q = None"
      using a by (metis append_Cons)
    ultimately show "re_search r (c # s) = None"
      using Cons.IH by simp
  qed
qed

lemma re_search_found:
  assumes "re_match r q = Some m"
    and "\<forall>p' q'. p @ q = p' @ q' \<and> length p' < length p \<longrightarrow> re_match r q' = None"
  shows "re_search r (p @ q) = Some m"
  using assms
proof (induction p)
  case Nil
  then show ?case by (cases q) simp_all
next
  case (Cons c p)
  have "re_match r (c # p @ q) = None"
    using Cons.prems(2) [rule_format, of "[]" "c # p @ q"] by simp
  moreover have "re_search r (p @ q) = Some m"
  proof (rule Cons.IH [OF Cons.prems(1)], intro allI impI)
    fix p' q' assume "p @ q = p' @ q' \<and> length p' < length p"
    then show "re_match r q' = None"
      using Cons.prems(2) [rule_format, of "c # p'" q'] by simp
  qed
  ultimately show ?case by simp
qed

lemma re_search_Some:
  assumes "re_search r s = Some m"
  shows "\<exists>p q. s = p @ q \<and> re_match r q = Some m"
  using assms
proof (induction s)
  case Nil
  then show ?case by simp
next
  case (Cons c s)
  show ?case
  proof (cases "re_match r (c # s)")
    case None
    with Cons.prems have "re_search r s = Some m" by simp
    then obtain p q where "s = p @ q" "re_match r q = Some m"
      using Cons.IH by blast
    then have "c # s = (c # p) @ q \<and> re_match r q = Some m" by simp
    then show ?thesis by blast
  next
    case (Some a)
    with Cons.prems have "c # s = [] @ (c # s) \<and> re_match r (c # s) = Some m" by simp
    then show ?thesis by blast
  qed
qed

subsection \<open>Patterns and URL shapes\<close>

lemma takeWhile_all: "\<forall>c \<in> set vid. P c \<Longrightarrow> takeWhile P (vid @ rest) = vid @ takeWhile P rest"
  by (induction vid) auto

lemma url_here_iff:
  "url_here heads s \<longleftrightarrow> (\<exists>h \<in> set heads. \<exists>t. s = h @ t \<and> 6 \<le> length (takeWhile word_or_hyphen t))"
proof
  assume "url_here heads s"
  then obtain h vid rest where h: "h \<in> set heads" "s = h @ vid @ rest" "6 \<le> length vid"
      "\<forall>c \<in> set vid. word_or_hyphen c"
    by (auto simp: url_here_def)
  then have "6 \<le> length (takeWhile word_or_hyphen (vid @ rest))"
    by (simp add: takeWhile_all)
  with h(1,2) show "\<exists>h \<in> set heads. \<exists>t. s = h @ t \<and> 6 \<le> length (takeWhile word_or_hyphen t)"
    by blast
next
  assume "\<exists>h \<in> set heads. \<exists>t. s = h @ t \<and> 6 \<le> length (takeWhile word_or_hyphen t)"
  then obtain h t where h: "h \<in> set heads" "s = h @ t" "6 \<le> length (takeWhile word_or_hyphen t)"
    by blast
  have "s = h @ takeWhile word_or_hyphen t @ dropWhile word_or_hyphen t"
    using h(2) by simp
  moreover have "\<forall>c \<in> set (takeWhile word_or_hyphen t). word_or_hyphen c"
    by (auto dest: set_takeWhileD)
  ultimately show "url_here heads s"
    using h(1,3) unfolding url_here_def by blast
qed

lemma re_match_shorts_None: "re_match shorts_re s = None \<longleftrightarrow> \<not> url_here shorts_heads s"
proof -
  have "re_match shorts_re s \<noteq> None \<longleftrightarrow> url_here shorts_heads s"
    unfolding url_here_iff
    using re_match_shorts_sound [of s] re_match_shorts_complete by fastforce
  then show ?thesis by blast
qed

lemma re_match_watch_None: "re_match watch_re s = None \<longleftrightarrow> \<not> url_here watch_heads s"
proof -
  have "re_match watch_re s \<noteq> None \<longleftrightarrow> url_here watch_heads s"
    unfolding url_here_iff
    using re_match_watch_sound [of s] re_match_watch_complete by fastforce
  then show ?thesis by blast
qed

lemma url_here_append: "url_here heads s \<Longrightarrow> url_here heads (s @ b)"
  unfolding url_here_def by (metis append.assoc)

lemma re_search_shorts_None: "re_search shorts_re s = None \<longleftrightarrow> \<not> contains_url shorts_heads s"
  by (auto simp: re_search_None re_match_shorts_None contains_url_def)

lemma re_search_watch_None: "re_search watch_re s = None \<longleftrightarrow> \<not> contains_url watch_heads s"
  by (auto simp: re_search_None re_match_watch_None contains_url_def)

subsection \<open>Trimming\<close>

lemma strip_decomp: "\<exists>a b. s = a @ strip s @ b"
proof -
  let ?l = "dropWhile is_space s"
  have "s = takeWhile is_space s @ ?l" by simp
  moreover have "rev ?l = takeWhile is_space (rev ?l) @ dropWhile is_space (rev ?l)" by simp
  then have "?l = strip s @ rev (takeWhile is_space (rev ?l))"
    unfolding strip_def by (metis rev_append rev_rev_ident)
  ultimately have "s = takeWhile is_space s @ strip s @ rev (takeWhile is_space (rev ?l))"
    by simp
  then show ?thesis by blast
qed

lemma contains_url_strip: "contains_url heads (strip s) \<Longrightarrow> contains_url heads s"
proof -
  assume "contains_url heads (strip s)"
  then obtain p q where pq: "strip s = p @ q" "url_here heads q"
    by (auto simp: contains_url_def)
  obtain a b where "s = a @ strip s @ b" using strip_decomp by blast
  then have "s = (a @ p) @ (q @ b)" using pq(1) by simp
  moreover have "url_here heads (q @ b)" using pq(2) by (rule url_here_append)
  ultimately show ?thesis unfolding contains_url_def by blast
qed

lemma dropWhile_hd_id: "xs \<noteq> [] \<Longrightarrow> \<not> P (hd xs) \<Longrightarrow> dropWhile P xs = xs"
  by (cases xs) simp_all

lemma strip_id: "s = [] \<or> (\<not> is_space (hd s) \<and> \<not> is_space (last s)) \<Longrightarrow> strip s = s"
proof (cases s)
  case Nil
  then show ?thesis by (simp add: strip_def)
next
  case (Cons c t)
  assume "s = [] \<or> (\<not> is_space (hd s) \<and> \<not> is_space (last s))"
  with Cons have h: "\<not> is_space (hd s)" and l: "\<not> is_space (last s)" by auto
  have 1: "dropWhile is_space s = s" using h Cons by simp
  have rs: "rev s \<noteq> []" using Cons by simp
  have "hd (rev s) = last s" using rs by (simp add: hd_rev)
  then have 2: "dropWhile is_space (rev s) = rev s"
    using l rs by (intro dropWhile_hd_id) simp_all
  show ?thesis by (simp add: strip_def 1 2)
qed

lemma strip_ends: "strip s = [] \<or> (\<not> is_space (hd (strip s)) \<and> \<not> is_space (last (strip s)))"
proof (cases "strip s = []")
  case True
  then show ?thesis by simp
next
  case False
  let ?l = "dropWhile is_space s"
  let ?r = "dropWhile is_space (rev ?l)"
  have r: "?r \<noteq> []" using False by (simp add: strip_def)
  then have "\<not> is_space (hd ?r)" by (rule hd_dropWhile)
  then have last: "\<not> is_space (last (strip s))"
    using r by (simp add: strip_def last_rev)
  have l: "?l \<noteq> []"
  proof
    assume e: "?l = []"
    have "?r = []" unfolding e by simp
    with r show False by simp
  qed
  then have hl: "\<not> is_space (hd ?l)" by (rule hd_dropWhile)
  obtain b where b: "?l = strip s @ b"
  proof -
    have "rev ?l = takeWhile is_space (rev ?l) @ ?r" by simp
    then have "?l = rev ?r @ rev (takeWhile is_space (rev ?l))"
      by (metis rev_append rev_rev_ident)
    then show ?thesis using that by (simp add: strip_def)
  qed
  have "hd (strip s) = hd ?l" using b False by (metis hd_append2)
  then show ?thesis using hl last by simp
qed

lemma strip_strip: "strip (strip s) = strip s"
  using strip_ends [of s] by (rule strip_id)

subsection \<open>The normalizer on a watch URL\<close>

lemma word_or_hyphen_not_space: "word_or_hyphen c \<Longrightarrow> \<not> is_space c"
  by (auto simp: class_defs Let_def)

lemma colon_not_id: "\<not> word_or_hyphen (CHR '':'')"
  by (simp add: class_defs)

lemma re_search_shorts_no_colon:
  assumes "CHR '':'' \<notin> set g"
  shows "re_search shorts_re g = None"
proof -
  have "re_match shorts_re q = None" if "g = p @ q" for p q
  proof (rule ccontr)
    assume "re_match shorts_re q \<noteq> None"
    then obtain m where "re_match shorts_re q = Some m" by blast
    from re_match_shorts_sound [OF this] obtain h t where "h \<in> set shorts_heads" "q = h @ t"
      by blast
    then have "CHR '':'' \<in> set q" by (auto simp: shorts_heads_def)
    with that assms show False by simp
  qed
  then show ?thesis by (simp add: re_search_None)
qed

lemma first_of_Nil: "first_of [] = None"
  by (simp add: first_of_def)

lemma re_match_shorts_http:
  "re_match shorts_re s =
     (case strip_prefix ''http'' s of None \<Rightarrow> None
      | Some t \<Rightarrow> first_of (rx_match (Seq (Opt (Lit ''s'')) (Seq (Lit ''://'') (Seq (Opt (Lit ''www.''))
          (Seq (Lit ''youtube.com/shorts/'') (Grp (AtLeast 6 word_or_hyphen)))))) t))"
  unfolding re_match_def shorts_re_def seq_lit first_of_case_option ..

lemma re_search_shorts_watch_head:
  assumes "h \<in> set watch_heads" and "CHR '':'' \<notin> set g"
  shows "re_search shorts_re (h @ g) = None"
  using assms(1) re_search_shorts_no_colon [OF assms(2)]
  by (auto simp: watch_heads_def re_match_shorts_http seq_lit seq_opt_lit first_simps first_of_Nil
      simp del: rx_match.simps)

lemma watch_head_ends: "h \<in> set watch_heads \<Longrightarrow> h \<noteq> [] \<and> hd h = CHR ''h''"
  by (auto simp: watch_heads_def)

lemma shorts_head_ends: "h \<in> set shorts_heads \<Longrightarrow> h \<noteq> [] \<and> hd h = CHR ''h''"
  by (auto simp: shorts_heads_def)

lemma h_not_space: "\<not> is_space (CHR ''h'')"
  by (simp add: is_space_def)

lemma clean_fixed:
  assumes "h \<in> set watch_heads" and "6 \<le> length g" and "\<forall>c \<in> set g. word_or_hyphen c"
  shows "clean_youtube_url (h @ g) = Inr (h @ g)"
proof -
  have g: "g \<noteq> []" using assms(2) by auto
  have "\<not> is_space (hd (h @ g))"
    using watch_head_ends [OF assms(1)] h_not_space by simp
  moreover have "\<not> is_space (last (h @ g))"
    using g assms(3) word_or_hyphen_not_space by simp
  ultimately have s: "strip (h @ g) = h @ g"
    by (intro strip_id) simp
  have "CHR '':'' \<notin> set g"
    using assms(3) colon_not_id by blast
  then have n: "re_search shorts_re (h @ g) = None"
    using assms(1) by (rule re_search_shorts_watch_head [rotated])
  have t: "takeWhile word_or_hyphen g = g" "dropWhile word_or_hyphen g = []"
    using assms(3) by simp_all
  have "re_match watch_re (h @ g) = Some ([h @ g], [])"
    using re_match_watch_complete [OF assms(1), of g] assms(2) by (simp add: t)
  then have w: "re_search watch_re (h @ g) = Some ([h @ g], [])"
    using re_search_found [of watch_re "h @ g" _ "[]"] by simp
  show ?thesis
    by (simp add: clean_youtube_url_def s n w)
qed

lemma clean_cases:
  "(\<exists>h \<in> set watch_heads. \<exists>g. 6 \<le> length g \<and> (\<forall>c \<in> set g. word_or_hyphen c)
        \<and> clean_youtube_url s = Inr (h @ g))
   \<or> (re_search shorts_re (strip s) = None \<and> re_search watch_re (strip s) = None
        \<and> clean_youtube_url s = Inr (strip s))"
proof (cases "re_search shorts_re (strip s)")
  case (Some m)
  then obtain p q where "re_match shorts_re q = Some m"
    using re_search_Some by blast
  from re_match_shorts_sound [OF this] obtain t where
    m: "6 \<le> length (takeWhile word_or_hyphen t)" "m = ([takeWhile word_or_hyphen t], dropWhile word_or_hyphen t)"
    by blast
  have "clean_youtube_url s = Inr (''https://www.youtube.com/watch?v='' @ takeWhile word_or_hyphen t)"
    using Some m(2) by (simp add: clean_youtube_url_def)
  moreover have "''https://www.youtube.com/watch?v='' \<in> set watch_heads"
    by (simp add: watch_heads_def)
  moreover have "\<forall>c \<in> set (takeWhile word_or_hyphen t). word_or_hyphen c"
    by (auto dest: set_takeWhileD)
  ultimately show ?thesis using m(1) by blast
next
  case None
  show ?thesis
  proof (cases "re_search watch_re (strip s)")
    case (Some m)
    then obtain p q where "re_match watch_re q = Some m"
      using re_search_Some by blast
    from re_match_watch_sound [OF this] obtain h t where
      m: "h \<in> set watch_heads" "6 \<le> length (takeWhile word_or_hyphen t)"
        "m = ([h @ takeWhile word_or_hyphen t], dropWhile word_or_hyphen t)"
      by blast
    have "clean_youtube_url s = Inr (h @ takeWhile word_or_hyphen t)"
      using None Some m(3) by (simp add: clean_youtube_url_def)
    moreover have "\<forall>c \<in> set (takeWhile word_or_hyphen t). word_or_hyphen c"
      by (auto dest: set_takeWhileD)
    ultimately show ?thesis using m(1,2) by blast
  next
    case n: None
    then show ?thesis using None by (simp add: clean_youtube_url_def)
  qed
qed

subsection \<open>Trimming around a URL\<close>

lemma dropWhile_append_hd:
  "ys \<noteq> [] \<Longrightarrow> \<not> P (hd ys) \<Longrightarrow> dropWhile P (xs @ ys) = dropWhile P xs @ ys"
  by (induction xs) (simp_all add: dropWhile_hd_id)

lemma strip_sandwich:
  assumes "mid \<noteq> []" and "\<not> is_space (hd mid)" and "\<not> is_space (last mid)"
  shows "strip (pre @ mid @ post) = dropWhile is_space pre @ mid @ rev (dropWhile is_space (rev post))"
proof -
  have 1: "dropWhile is_space (pre @ mid @ post) = dropWhile is_space pre @ mid @ post"
    using assms(1,2) by (intro dropWhile_append_hd) simp_all
  have "rev (dropWhile is_space pre @ mid @ post) = rev post @ (rev mid @ rev (dropWhile is_space pre))"
    by simp
  moreover have "dropWhile is_space (rev post @ (rev mid @ rev (dropWhile is_space pre)))
      = dropWhile is_space (rev post) @ (rev mid @ rev (dropWhile is_space pre))"
    using assms(1,3) by (intro dropWhile_append_hd) (simp_all add: hd_rev)
  ultimately show ?thesis
    by (simp add: strip_def 1)
qed

lemma rstrip_decomp: "post = rev (dropWhile P (rev post)) @ rev (takeWhile P (rev post))"
proof -
  have "rev post = takeWhile P (rev post) @ dropWhile P (rev post)" by simp
  then have "rev (rev post) = rev (takeWhile P (rev post) @ dropWhile P (rev post))" by simp
  then show ?thesis by (simp only: rev_rev_ident rev_append)
qed

lemma starts_with: "r = (c # cs) @ b \<Longrightarrow> r \<noteq> [] \<and> hd r = c"
  by simp

lemma url_here_hd: "url_here shorts_heads q \<Longrightarrow> hd q = CHR ''h''"
  by (auto simp: url_here_def shorts_heads_def)

lemma re_match_shorts_not_h: "c \<noteq> CHR ''h'' \<Longrightarrow> re_match shorts_re (c # s) = None"
  by (simp add: re_match_shorts_http)

lemma re_match_watch_not_h:
  assumes "c \<noteq> CHR ''h''"
  shows "re_match watch_re (c # s) = None"
proof (rule ccontr)
  assume "re_match watch_re (c # s) \<noteq> None"
  then obtain m where "re_match watch_re (c # s) = Some m" by blast
  from re_match_watch_sound [OF this] obtain h t where h: "h \<in> set watch_heads" "c # s = h @ t"
    by blast
  have "h \<noteq> []" "hd h = CHR ''h''" using watch_head_ends [OF h(1)] by simp_all
  then have "hd (h @ t) = CHR ''h''" by simp
  then show False using h(2) assms by (metis list.sel(1))
qed

section \<open>URL normalizer: shorts URLs, pass-through, idempotence\<close>

text \<open>
  C2. For every input in which a shorts URL stands (one of the four forms of the text
  before the id, then an id of at least six characters of the class \<open>[\w-]\<close> that ends
  at the end of the input or before a character outside the class) and in which no
  shorts URL starts further left, the normalizer returns exactly
  \<open>https://www.youtube.com/watch?v=\<close> followed by that id.
\<close>

theorem clean_youtube_url_shorts:
  assumes shape: "s = pre @ h @ vid @ rest" "h \<in> set shorts_heads"
    and vid: "6 \<le> length vid" "\<forall>c \<in> set vid. word_or_hyphen c"
    and maximal: "rest = [] \<or> \<not> word_or_hyphen (hd rest)"
    and leftmost: "\<forall>p q. s = p @ q \<and> length p < length pre \<longrightarrow> \<not> url_here shorts_heads q"
  shows "clean_youtube_url s = Inr (''https://www.youtube.com/watch?v='' @ vid)"
proof -
  let ?pre = "dropWhile is_space pre"
  let ?rest = "rev (dropWhile is_space (rev rest))"
  let ?a = "takeWhile is_space pre"
  let ?b = "rev (takeWhile is_space (rev rest))"
  have v: "vid \<noteq> []" using vid(1) by auto
  have mid: "h @ vid \<noteq> []" "\<not> is_space (hd (h @ vid))" "\<not> is_space (last (h @ vid))"
    using v shorts_head_ends [OF shape(2)] h_not_space vid(2) word_or_hyphen_not_space
    by simp_all
  have "strip (pre @ (h @ vid) @ rest) = ?pre @ (h @ vid) @ ?rest"
    using mid by (rule strip_sandwich)
  then have st: "strip s = ?pre @ (h @ vid @ ?rest)"
    by (simp add: shape(1))
  have rest: "rest = ?rest @ ?b" by (rule rstrip_decomp)
  have s_eq: "s = ?a @ strip s @ ?b"
  proof -
    have "?a @ strip s @ ?b = ?a @ (?pre @ (h @ vid @ ?rest)) @ ?b"
      by (simp only: st)
    also have "\<dots> = (?a @ ?pre) @ h @ vid @ (?rest @ ?b)"
      by (simp only: append_assoc)
    also have "\<dots> = pre @ h @ vid @ rest"
      by (simp only: takeWhile_dropWhile_id rest [symmetric])
    finally show ?thesis by (simp only: shape(1))
  qed
  have "takeWhile word_or_hyphen ?rest = []"
  proof (cases "?rest")
    case Nil
    show ?thesis by (simp only: Nil takeWhile.simps)
  next
    case (Cons c cs)
    have "rest = (c # cs) @ ?b" using rest by (simp only: Cons)
    then have "rest \<noteq> [] \<and> hd rest = c" by (rule starts_with)
    then have "\<not> word_or_hyphen c" using maximal by auto
    then show ?thesis by (simp only: Cons takeWhile.simps if_False)
  qed
  then have tw: "takeWhile word_or_hyphen (vid @ ?rest) = vid"
    using vid(2) by (simp add: takeWhile_all)
  have here: "re_match shorts_re (h @ vid @ ?rest)
      = Some ([vid], dropWhile word_or_hyphen (vid @ ?rest))"
    using re_match_shorts_complete [OF shape(2), of "vid @ ?rest"] vid(1) by (simp add: tw)
  have before: "\<forall>p' q'. ?pre @ (h @ vid @ ?rest) = p' @ q' \<and> length p' < length ?pre
      \<longrightarrow> re_match shorts_re q' = None"
  proof (intro allI impI)
    fix p' q' assume a: "?pre @ (h @ vid @ ?rest) = p' @ q' \<and> length p' < length ?pre"
    then have "s = (?a @ p') @ (q' @ ?b)"
      using s_eq st by simp
    moreover have "length (?a @ p') < length pre"
    proof -
      have "length pre = length (?a @ ?pre)" by simp
      then show ?thesis using a unfolding length_append by linarith
    qed
    ultimately have "\<not> url_here shorts_heads (q' @ ?b)"
      using leftmost by blast
    then have "\<not> url_here shorts_heads q'"
      using url_here_append by blast
    then show "re_match shorts_re q' = None"
      by (simp add: re_match_shorts_None)
  qed
  have "re_search shorts_re (strip s) = Some ([vid], dropWhile word_or_hyphen (vid @ ?rest))"
    unfolding st using here before by (rule re_search_found)
  then show ?thesis
    by (simp add: clean_youtube_url_def)
qed

theorem clean_youtube_url_shorts_witness:
  "'' https://youtube.com/shorts/abc123XYZ?feature=share''
      = '' '' @ ''https://youtube.com/shorts/'' @ ''abc123XYZ'' @ ''?feature=share''
   \<and> ''https://youtube.com/shorts/'' \<in> set shorts_heads
   \<and> 6 \<le> length ''abc123XYZ'' \<and> list_all word_or_hyphen ''abc123XYZ''
   \<and> \<not> word_or_hyphen (hd ''?feature=share'')
   \<and> clean_youtube_url '' https://youtube.com/shorts/abc123XYZ?feature=share''
      = Inr ''https://www.youtube.com/watch?v=abc123XYZ''"
proof -
  let ?s = "'' https://youtube.com/shorts/abc123XYZ?feature=share''"
  have 1: "?s = '' '' @ ''https://youtube.com/shorts/'' @ ''abc123XYZ'' @ ''?feature=share''"
    by simp
  have 2: "''https://youtube.com/shorts/'' \<in> set shorts_heads"
    by (simp add: shorts_heads_def)
  have 3: "6 \<le> length ''abc123XYZ''" by simp
  have 4: "\<forall>c \<in> set ''abc123XYZ''. word_or_hyphen c"
    by (simp add: class_defs)
  have 5: "\<not> word_or_hyphen (hd ''?feature=share'')"
    by (simp add: class_defs)
  then have 7: "''?feature=share'' = [] \<or> \<not> word_or_hyphen (hd ''?feature=share'')"
    by blast
  have 6: "\<forall>p q. ?s = p @ q \<and> length p < length '' '' \<longrightarrow> \<not> url_here shorts_heads q"
  proof (intro allI impI)
    fix p q assume "?s = p @ q \<and> length p < length '' ''"
    then have "q = ?s" by simp
    then have "hd q \<noteq> CHR ''h''" by simp
    then show "\<not> url_here shorts_heads q" using url_here_hd by blast
  qed
  show ?thesis
    using clean_youtube_url_shorts [OF 1 2 3 4 7 6] 2 3 4 5 by (simp add: list_all_iff)
qed

text \<open>
  C3. The normalizer raises for no input; and for every input that contains neither a
  shorts URL nor a watch or short-domain URL with an id of at least six characters of
  the class \<open>[\w-]\<close>, it returns the input with the surrounding whitespace trimmed and
  nothing else changed.
\<close>

theorem clean_youtube_url_passthrough:
  "(\<exists>u. clean_youtube_url s = Inr u)
   \<and> (\<not> contains_url shorts_heads s \<and> \<not> contains_url watch_heads s
        \<longrightarrow> clean_youtube_url s = Inr (strip s))"
proof
  show "\<exists>u. clean_youtube_url s = Inr u"
    using clean_cases [of s] by blast
  show "\<not> contains_url shorts_heads s \<and> \<not> contains_url watch_heads s
        \<longrightarrow> clean_youtube_url s = Inr (strip s)"
  proof
    assume "\<not> contains_url shorts_heads s \<and> \<not> contains_url watch_heads s"
    then have "\<not> contains_url shorts_heads (strip s)" "\<not> contains_url watch_heads (strip s)"
      using contains_url_strip by blast+
    then have "re_search shorts_re (strip s) = None" "re_search watch_re (strip s) = None"
      by (simp_all add: re_search_shorts_None re_search_watch_None)
    then show "clean_youtube_url s = Inr (strip s)"
      by (simp add: clean_youtube_url_def)
  qed
qed

theorem clean_youtube_url_passthrough_witness:
  "re_search shorts_re ''  my video  '' = None \<and> re_search watch_re ''  my video  '' = None
   \<and> clean_youtube_url ''  my video  '' = Inr ''my video''"
proof -
  have s: "re_search shorts_re ''  my video  '' = None"
    by (simp add: re_match_shorts_not_h re_match_def shorts_re_def first_of_def)
  have w: "re_search watch_re ''  my video  '' = None"
    by (simp add: re_match_watch_not_h re_match_def watch_re_def first_of_def)
  have ns: "\<not> contains_url shorts_heads ''  my video  ''"
    using s unfolding re_search_shorts_None .
  have nw: "\<not> contains_url watch_heads ''  my video  ''"
    using w unfolding re_search_watch_None .
  have st: "strip ''  my video  '' = ''my video''"
    by (simp add: strip_def is_space_def)
  from clean_youtube_url_passthrough [of "''  my video  ''"] ns nw
  have "clean_youtube_url ''  my video  '' = Inr (strip ''  my video  '')"
    by blast
  then show ?thesis
    using s w by (simp only: st simp_thms)
qed

text \<open>
  C10. The normalizer is idempotent: for every input it returns a string, and applied
  to that string it returns the same string.
\<close>

theorem clean_youtube_url_idempotent:
  "\<exists>u. clean_youtube_url s = Inr u \<and> clean_youtube_url u = Inr u"
proof -
  from clean_cases [of s] consider
      h g where "h \<in> set watch_heads" "6 \<le> length g" "\<forall>c \<in> set g. word_or_hyphen c"
        "clean_youtube_url s = Inr (h @ g)"
    | "re_search shorts_re (strip s) = None" "re_search watch_re (strip s) = None"
        "clean_youtube_url s = Inr (strip s)"
    by auto
  then show ?thesis
  proof cases
    case 1
    then show ?thesis using clean_fixed [of h g] by simp
  next
    case 2
    then have "clean_youtube_url (strip s) = Inr (strip s)"
      by (simp add: clean_youtube_url_def strip_strip)
    with 2(3) show ?thesis by simp
  qed
qed

section \<open>Timestamps sort as text the way they sort as times\<close>

lemma length_digits [simp]: "length (digits w n) = w"
  by (induction w arbitrary: n) auto

lemma of_char_digit: "of_char (digit n) = (48 + n mod 10 :: nat)"
proof -
  have "(48 + n mod 10) mod 256 = 48 + n mod 10"
    by (rule mod_less) (simp add: less_Suc_eq_le trans_less_add2)
  then show ?thesis
    by (simp add: digit_def)
qed

lemma digit_less_iff: "digit a < digit b \<longleftrightarrow> a mod 10 < b mod 10"
  by (simp add: less_char_def of_char_digit)

lemma less_append_same_length:
  fixes xs ys :: "'a::order list"
  assumes "length xs = length ys"
  shows "xs @ us < ys @ vs \<longleftrightarrow> xs < ys \<or> (xs = ys \<and> us < vs)"
  using assms by (induction xs ys rule: list_induct2) auto

lemma digits_mono: "a < b \<Longrightarrow> b < 10 ^ w \<Longrightarrow> digits w a < digits w b"
proof (induction w arbitrary: a b)
  case 0
  then show ?case by simp
next
  case (Suc w)
  show ?case
  proof (cases "a div 10 < b div 10")
    case True
    moreover have "b div 10 < 10 ^ w"
      using Suc.prems(2) by (simp add: less_mult_imp_div_less mult.commute)
    ultimately have "digits w (a div 10) < digits w (b div 10)"
      by (rule Suc.IH)
    then show ?thesis
      by (simp add: less_append_same_length)
  next
    case False
    with Suc.prems(1) have eq: "a div 10 = b div 10"
      by (metis div_le_mono le_neq_implies_less less_imp_le_nat)
    have "a mod 10 < b mod 10"
    proof -
      have "a = 10 * (a div 10) + a mod 10" "b = 10 * (b div 10) + b mod 10" by simp_all
      with eq Suc.prems(1) show ?thesis by linarith
    qed
    then show ?thesis
      by (simp add: eq less_append_same_length digit_less_iff)
  qed
qed

lemma isoformat_valid:
  assumes "valid_datetime d"
  shows "isoformat d =
     digits 4 (year d) @ ''-'' @ digits 2 (month d) @ ''-'' @ digits 2 (day d) @ ''T''
     @ digits 2 (hour d) @ '':'' @ digits 2 (minute d) @ '':'' @ digits 2 (second d)
     @ (if microsecond d = 0 then [] else ''.'' @ digits 6 (microsecond d))"
  using assms by (simp add: isoformat_def valid_datetime_def zero_pad_def)

text \<open>The text of a later clock reading is greater, character by character.\<close>

lemma isoformat_mono:
  assumes "valid_datetime a" "valid_datetime b" "dt_less a b"
  shows "isoformat a < isoformat b"
proof -
  have b: "year b < 10 ^ 4" "month b < 10 ^ 2" "day b < 10 ^ 2" "hour b < 10 ^ 2"
    "minute b < 10 ^ 2" "second b < 10 ^ 2" "microsecond b < 10 ^ 6"
    using assms(2) by (simp_all add: valid_datetime_def)
  have us: "(if microsecond a = 0 then [] else ''.'' @ digits 6 (microsecond a))
      < (if microsecond b = 0 then [] else ''.'' @ digits 6 (microsecond b))"
    if "microsecond a < microsecond b"
    using that digits_mono [OF that b(7)] by auto
  from assms(3) consider
      "year a < year b"
    | "year a = year b" "month a < month b"
    | "year a = year b" "month a = month b" "day a < day b"
    | "year a = year b" "month a = month b" "day a = day b" "hour a < hour b"
    | "year a = year b" "month a = month b" "day a = day b" "hour a = hour b" "minute a < minute b"
    | "year a = year b" "month a = month b" "day a = day b" "hour a = hour b" "minute a = minute b"
      "second a < second b"
    | "year a = year b" "month a = month b" "day a = day b" "hour a = hour b" "minute a = minute b"
      "second a = second b" "microsecond a < microsecond b"
    by (auto simp: dt_less_def dt_fields_def)
  then show ?thesis
  proof cases
    case 1
    then show ?thesis
      using digits_mono [OF 1 b(1)]
      by (simp only: isoformat_valid [OF assms(1)] isoformat_valid [OF assms(2)])
         (simp add: less_append_same_length)
  next
    case 2
    then show ?thesis
      using digits_mono [OF 2(2) b(2)]
      by (simp only: isoformat_valid [OF assms(1)] isoformat_valid [OF assms(2)])
         (simp add: less_append_same_length)
  next
    case 3
    then show ?thesis
      using digits_mono [OF 3(3) b(3)]
      by (simp only: isoformat_valid [OF assms(1)] isoformat_valid [OF assms(2)])
         (simp add: less_append_same_length)
  next
    case 4
    then show ?thesis
      using digits_mono [OF 4(4) b(4)]
      by (simp only: isoformat_valid [OF assms(1)] isoformat_valid [OF assms(2)])
         (simp add: less_append_same_length)
  next
    case 5
    then show ?thesis
      using digits_mono [OF 5(5) b(5)]
      by (simp only: isoformat_valid [OF assms(1)] isoformat_valid [OF assms(2)])
         (simp add: less_append_same_length)
  next
    case 6
    then show ?thesis
      using digits_mono [OF 6(6) b(6)]
      by (simp only: isoformat_valid [OF assms(1)] isoformat_valid [OF assms(2)])
         (simp add: less_append_same_length)
  next
    case 7
    then show ?thesis
      using us [OF 7(7)]
      by (simp only: isoformat_valid [OF assms(1)] isoformat_valid [OF assms(2)])
         (simp add: less_append_same_length)
  qed
qed

lemma isoformat_fields: "dt_fields a = dt_fields b \<Longrightarrow> isoformat a = isoformat b"
  by (simp add: dt_fields_def isoformat_def)

lemma isoformat_mono_le:
  "valid_datetime a \<Longrightarrow> valid_datetime b \<Longrightarrow> dt_le a b \<Longrightarrow> isoformat a \<le> isoformat b"
  using isoformat_mono [of a b] isoformat_fields [of a b]
  by (auto simp: dt_le_def dt_less_def list_le_def)

text \<open>The sample clock readings and their texts.\<close>

lemma digits_2: "digits 2 n = [digit (n div 10), digit n]"
proof -
  have "(2::nat) = Suc (Suc 0)" by simp
  then show ?thesis by (simp only: digits.simps append_Nil append_Cons)
qed

lemma digits_4: "digits 4 n = [digit (n div 10 div 10 div 10), digit (n div 10 div 10), digit (n div 10), digit n]"
proof -
  have "(4::nat) = Suc (Suc (Suc (Suc 0)))" by simp
  then show ?thesis by (simp only: digits.simps append_Nil append_Cons)
qed

lemma digits_6: "digits 6 n = [digit (n div 10 div 10 div 10 div 10 div 10), digit (n div 10 div 10 div 10 div 10),
   digit (n div 10 div 10 div 10), digit (n div 10 div 10), digit (n div 10), digit n]"
proof -
  have "(6::nat) = Suc (Suc (Suc (Suc (Suc (Suc 0)))))" by simp
  then show ?thesis by (simp only: digits.simps append_Nil append_Cons)
qed

lemmas digit_eval = digits_2 digits_4 digits_6 digit_def char_of_def bit_Suc_0_iff

lemmas isoformat_eval = isoformat_def zero_pad_def digit_eval

lemma iso_now: "isoformat sample_now = ''2024-03-09T07:05:00''"
  by (simp add: isoformat_eval sample_now_def)

lemma iso_later: "isoformat sample_later = ''2024-03-09T07:05:00.001500''"
  by (simp add: isoformat_eval sample_later_def)

lemma iso_latest: "isoformat sample_latest = ''2024-03-10T00:00:00''"
  by (simp add: isoformat_eval sample_latest_def)

lemma sample_valid: "valid_datetime sample_now" "valid_datetime sample_later" "valid_datetime sample_latest"
  by (simp_all add: valid_datetime_def sample_now_def sample_later_def sample_latest_def)

lemma sample_less: "dt_less sample_now sample_later" "dt_less sample_later sample_latest"
  by (simp_all add: dt_less_def dt_fields_def sample_now_def sample_later_def sample_latest_def)

section \<open>Channel cache: rows before and after an upsert\<close>

lemma find_update_channel:
  assumes "find (\<lambda>r. channel_id r = cid) tbl = Some r"
  shows "find (\<lambda>r. channel_id r = cid) (update_channel title thumb now cid tbl)
       = Some (r\<lparr>channel_title := coalesce title (channel_title r),
                  thumbnail := coalesce thumb (thumbnail r), last_used_at := now\<rparr>)"
  using assms by (induction tbl) (auto simp: update_channel_def)

lemma select_id_None: "select_id cid tbl = None \<longleftrightarrow> cid \<notin> set (map channel_id tbl)"
  by (auto simp: select_id_def find_None_iff)

lemma map_id_update: "map channel_id (update_channel title thumb now cid tbl) = map channel_id tbl"
  by (induction tbl) (auto simp: update_channel_def)

lemma upsert_ids:
  "map channel_id (upsert_channel t i title thumb tbl) = map channel_id tbl
   \<or> (\<exists>cid. i = Some cid \<and> cid \<notin> set (map channel_id tbl)
        \<and> map channel_id (upsert_channel t i title thumb tbl) = map channel_id tbl @ [cid])"
  by (cases i)
     (auto simp: upsert_channel_def Let_def map_id_update insert_channel_def select_id_None
       split: option.splits)

lemma upsert_distinct:
  "distinct (map channel_id tbl) \<Longrightarrow> distinct (map channel_id (upsert_channel t i title thumb tbl))"
  using upsert_ids [of t i title thumb tbl] by auto

lemma upsert_rows:
  assumes "r' \<in> set (upsert_channel t i title thumb tbl)"
  shows "r' \<in> set tbl
     \<or> (last_used_at r' = isoformat t \<and> (saved_at r' = isoformat t \<or> (\<exists>r \<in> set tbl. saved_at r' = saved_at r)))"
  using assms
  by (cases i)
     (auto simp: upsert_channel_def Let_def update_channel_def insert_channel_def
       split: option.splits if_splits)

lemma upsert_keeps_saved_at:
  assumes "r \<in> set tbl"
  shows "\<exists>r' \<in> set (upsert_channel t i title thumb tbl). channel_id r' = channel_id r \<and> saved_at r' = saved_at r"
proof (cases "\<exists>cid. i = Some cid \<and> cid \<noteq> [] \<and> select_id cid tbl \<noteq> None \<and> channel_id r = cid")
  case True
  then obtain cid where c: "i = Some cid" "cid \<noteq> []" "select_id cid tbl \<noteq> None" "channel_id r = cid"
    by blast
  let ?r = "r\<lparr>channel_title := coalesce title (channel_title r),
              thumbnail := coalesce thumb (thumbnail r), last_used_at := isoformat t\<rparr>"
  have "?r \<in> set (upsert_channel t i title thumb tbl)"
    using c assms by (auto simp: upsert_channel_def Let_def update_channel_def image_iff intro!: bexI [of _ r])
  then show ?thesis by (intro bexI [of _ ?r]) simp_all
next
  case False
  then have "r \<in> set (upsert_channel t i title thumb tbl)"
    using assms
    by (cases i) (auto simp: upsert_channel_def Let_def update_channel_def insert_channel_def image_iff
        split: option.splits intro!: bexI [of _ r])
  then show ?thesis by blast
qed

lemma upsert_all_keeps_saved_at:
  "r \<in> set tbl \<Longrightarrow> \<exists>r' \<in> set (upsert_all cs tbl). channel_id r' = channel_id r \<and> saved_at r' = saved_at r"
proof (induction cs arbitrary: tbl r)
  case Nil
  then show ?case by auto
next
  case (Cons c cs)
  from upsert_keeps_saved_at [OF Cons.prems, of "call_time c" "call_id c" "call_title c" "call_thumb c"]
  obtain r1 where r1: "r1 \<in> set (upsert_channel (call_time c) (call_id c) (call_title c) (call_thumb c) tbl)"
      "channel_id r1 = channel_id r" "saved_at r1 = saved_at r"
    by blast
  from Cons.IH [OF r1(1)] r1(2,3) show ?case by auto
qed

lemma upsert_all_invariant_aux:
  assumes "channels_invariant tbl"
    and "sorted_wrt dt_le (map call_time cs)"
    and "\<forall>c \<in> set cs. valid_datetime (call_time c)"
    and "\<forall>r \<in> set tbl. \<forall>c \<in> set cs. last_used_at r \<le> isoformat (call_time c)"
  shows "channels_invariant (upsert_all cs tbl)"
  using assms
proof (induction cs arbitrary: tbl)
  case Nil
  then show ?case by simp
next
  case (Cons c cs)
  let ?tbl = "upsert_channel (call_time c) (call_id c) (call_title c) (call_thumb c) tbl"
  have d: "distinct (map channel_id ?tbl)"
    using Cons.prems(1) by (simp add: channels_invariant_def upsert_distinct)
  have rows: "saved_at r' \<le> last_used_at r' \<and> (\<forall>c' \<in> set cs. last_used_at r' \<le> isoformat (call_time c'))"
    if "r' \<in> set ?tbl" for r'
  proof -
    from upsert_rows [OF that] consider "r' \<in> set tbl"
      | "last_used_at r' = isoformat (call_time c)" "saved_at r' = isoformat (call_time c)"
      | r where "last_used_at r' = isoformat (call_time c)" "r \<in> set tbl" "saved_at r' = saved_at r"
      by blast
    then show ?thesis
    proof cases
      case 1
      then show ?thesis using Cons.prems(1,4) by (auto simp: channels_invariant_def)
    next
      case 2
      then show ?thesis
        using Cons.prems(2,3) by (auto intro: isoformat_mono_le)
    next
      case 3
      have "saved_at r \<le> last_used_at r" "last_used_at r \<le> isoformat (call_time c)"
        using 3(2) Cons.prems(1,4) by (auto simp: channels_invariant_def)
      then have "saved_at r' \<le> last_used_at r'"
        using 3(1,3) by simp
      then show ?thesis
        using 3(1) Cons.prems(2,3) by (auto intro: isoformat_mono_le)
    qed
  qed
  have "channels_invariant (upsert_all cs ?tbl)"
  proof (rule Cons.IH)
    show "channels_invariant ?tbl"
      using d rows by (simp add: channels_invariant_def)
    show "sorted_wrt dt_le (map call_time cs)" using Cons.prems(2) by simp
    show "\<forall>c \<in> set cs. valid_datetime (call_time c)" using Cons.prems(3) by simp
    show "\<forall>r \<in> set ?tbl. \<forall>c \<in> set cs. last_used_at r \<le> isoformat (call_time c)"
      using rows by blast
  qed
  then show ?case by simp
qed

lemma rows_of_update:
  "rows_of cid (update_channel title thumb now cid tbl)
     = map (\<lambda>r. r\<lparr>channel_title := coalesce title (channel_title r),
                    thumbnail := coalesce thumb (thumbnail r), last_used_at := now\<rparr>) (rows_of cid tbl)"
  by (induction tbl) (auto simp: rows_of_def update_channel_def)

lemma rows_of_absent: "cid \<notin> set (map channel_id tbl) \<Longrightarrow> rows_of cid tbl = []"
  by (induction tbl) (auto simp: rows_of_def)

lemma rows_of_distinct:
  "distinct (map channel_id tbl) \<Longrightarrow> cid \<in> set (map channel_id tbl) \<Longrightarrow> \<exists>r. rows_of cid tbl = [r]"
  by (induction tbl) (auto simp: rows_of_def rows_of_absent [unfolded rows_of_def])

lemma rows_of_insert:
  assumes "cid \<noteq> []" and "cid \<notin> set (map channel_id tbl)"
  shows "rows_of cid (upsert_channel t (Some cid) title thumb tbl)
       = [\<lparr>channel_id = cid, channel_title = title, thumbnail = thumb,
            saved_at = isoformat t, last_used_at = isoformat t\<rparr>]"
proof -
  have "select_id cid tbl = None" using assms(2) by (simp add: select_id_None)
  moreover have "rows_of cid tbl = []" using assms(2) by (rule rows_of_absent)
  ultimately show ?thesis
    using assms(1) by (simp add: upsert_channel_def Let_def insert_channel_def rows_of_def)
qed

lemma rows_of_upsert:
  assumes "distinct (map channel_id tbl)" and "cid \<noteq> []"
  shows "\<exists>r. rows_of cid (upsert_channel t (Some cid) (Some title) (Some thumb) tbl) = [r]
     \<and> last_used_at r = isoformat t \<and> channel_title r = Some title \<and> thumbnail r = Some thumb
     \<and> (\<forall>r0. rows_of cid tbl = [r0] \<longrightarrow> saved_at r = saved_at r0)"
proof (cases "select_id cid tbl")
  case None
  then have "rows_of cid tbl = []"
    by (simp add: select_id_None rows_of_absent)
  then show ?thesis
    using None assms(2) by (simp add: upsert_channel_def Let_def insert_channel_def rows_of_def)
next
  case (Some a)
  then have "cid \<in> set (map channel_id tbl)"
    using select_id_None [of cid tbl] by auto
  then obtain r0 where "rows_of cid tbl = [r0]"
    using rows_of_distinct [OF assms(1)] by blast
  then show ?thesis
    using Some assms(2) by (simp add: upsert_channel_def Let_def rows_of_update)
qed

lemma upsert_twice:
  assumes "distinct (map channel_id tbl)" and "cid \<noteq> []"
  shows "\<exists>r1 r2.
      rows_of cid (upsert_channel t1 (Some cid) (Some title) (Some thumb) tbl) = [r1]
    \<and> rows_of cid (upsert_channel t2 (Some cid) (Some title) (Some thumb)
          (upsert_channel t1 (Some cid) (Some title) (Some thumb) tbl)) = [r2]
    \<and> saved_at r2 = saved_at r1 \<and> last_used_at r2 = isoformat t2
    \<and> channel_title r2 = Some title \<and> thumbnail r2 = Some thumb"
proof -
  let ?t1 = "upsert_channel t1 (Some cid) (Some title) (Some thumb) tbl"
  obtain r1 where r1: "rows_of cid ?t1 = [r1]"
    using rows_of_upsert [OF assms, of t1 title thumb] by blast
  have "distinct (map channel_id ?t1)"
    using assms(1) by (rule upsert_distinct)
  from rows_of_upsert [OF this assms(2), of t2 title thumb] r1
  show ?thesis by auto
qed

section \<open>Channel cache: coalesce on write\<close>

lemma upsert_channel_row:
  assumes "find (\<lambda>r. channel_id r = cid) tbl = Some r" and "cid \<noteq> []"
  shows "\<exists>r'. find (\<lambda>r. channel_id r = cid) (upsert_channel now (Some cid) title thumb tbl) = Some r'
      \<and> (title = None \<longrightarrow> channel_title r' = channel_title r)
      \<and> (\<forall>t. title = Some t \<longrightarrow> channel_title r' = Some t)
      \<and> (thumb = None \<longrightarrow> thumbnail r' = thumbnail r)
      \<and> (\<forall>t. thumb = Some t \<longrightarrow> thumbnail r' = Some t)
      \<and> last_used_at r' = isoformat now
      \<and> saved_at r' = saved_at r
      \<and> channel_id r' = cid"
proof -
  have sel: "select_id cid tbl = Some (channel_id r)"
    using assms(1) by (simp add: select_id_def)
  have cid: "channel_id r = cid"
    using assms(1) by (auto dest: find_Some_iff [THEN iffD1])
  show ?thesis
    using find_update_channel [OF assms(1), of title thumb "isoformat now"] assms(2) sel cid
    by (cases title; cases thumb) (simp_all add: upsert_channel_def)
qed

text \<open>The table starts empty and only upserts write to it, so it holds no empty id.\<close>

lemma upsert_nonempty_ids:
  assumes "\<forall>r \<in> set tbl. channel_id r \<noteq> []"
  shows "\<forall>r \<in> set (upsert_channel t i title thumb tbl). channel_id r \<noteq> []"
  using assms
  by (cases i)
     (auto simp: upsert_channel_def Let_def update_channel_def insert_channel_def
       split: option.splits if_splits)

lemma upsert_all_nonempty_ids:
  "\<forall>r \<in> set tbl. channel_id r \<noteq> [] \<Longrightarrow> \<forall>r \<in> set (upsert_all cs tbl). channel_id r \<noteq> []"
proof (induction cs arbitrary: tbl)
  case Nil
  then show ?case by simp
next
  case (Cons c cs)
  have "\<forall>r \<in> set (upsert_channel (call_time c) (call_id c) (call_title c) (call_thumb c) tbl).
      channel_id r \<noteq> []"
    using Cons.prems by (rule upsert_nonempty_ids)
  then have "\<forall>r \<in> set (upsert_all cs
      (upsert_channel (call_time c) (call_id c) (call_title c) (call_thumb c) tbl)). channel_id r \<noteq> []"
    by (rule Cons.IH)
  then show ?case by simp
qed

text \<open>
  C4. For every row of the table, in every state that upserts reach from the empty
  table, an upsert of the row's id keeps the stored title when the new title is null
  and overwrites it when the new title is not null, likewise for the thumbnail; in
  every case \<open>last_used_at\<close> becomes the text of the upsert's clock reading, and
  \<open>saved_at\<close> stays.
\<close>

theorem upsert_channel_coalesce:
  assumes "find (\<lambda>r. channel_id r = cid) (upsert_all cs []) = Some r"
  shows "\<exists>r'. find (\<lambda>r. channel_id r = cid)
            (upsert_channel now (Some cid) title thumb (upsert_all cs [])) = Some r'
      \<and> (title = None \<longrightarrow> channel_title r' = channel_title r)
      \<and> (\<forall>t. title = Some t \<longrightarrow> channel_title r' = Some t)
      \<and> (thumb = None \<longrightarrow> thumbnail r' = thumbnail r)
      \<and> (\<forall>t. thumb = Some t \<longrightarrow> thumbnail r' = Some t)
      \<and> last_used_at r' = isoformat now
      \<and> saved_at r' = saved_at r
      \<and> channel_id r' = cid"
proof -
  have r: "r \<in> set (upsert_all cs [])" "channel_id r = cid"
    using assms by (auto dest: find_Some_iff [THEN iffD1] simp: in_set_conv_nth)
  have "\<forall>r \<in> set (upsert_all cs []). channel_id r \<noteq> []"
    by (rule upsert_all_nonempty_ids) simp
  then have "cid \<noteq> []" using r by blast
  with assms show ?thesis by (rule upsert_channel_row)
qed

theorem upsert_channel_coalesce_witness:
  "upsert_all [sample_first_call] [] = [sample_row]
   \<and> find (\<lambda>r. channel_id r = ''UCxyz'') (upsert_all [sample_first_call] []) = Some sample_row
   \<and> (\<exists>r'. find (\<lambda>r. channel_id r = ''UCxyz'')
        (upsert_channel sample_later (Some ''UCxyz'') None (Some ''http://t/2.jpg'')
          (upsert_all [sample_first_call] [])) = Some r'
      \<and> channel_title r' = Some ''Acme'' \<and> thumbnail r' = Some ''http://t/2.jpg''
      \<and> last_used_at r' = ''2024-03-09T07:05:00.001500'' \<and> saved_at r' = ''2024-03-09T07:05:00'')"
proof -
  have e: "upsert_all [sample_first_call] [] = [sample_row]"
    by (simp add: sample_first_call_def sample_row_def upsert_channel_def select_id_def
        insert_channel_def iso_now Let_def)
  have f: "find (\<lambda>r. channel_id r = ''UCxyz'') (upsert_all [sample_first_call] []) = Some sample_row"
    unfolding e by (simp add: sample_row_def)
  from upsert_channel_coalesce [OF f, of sample_later None "Some ''http://t/2.jpg''"]
  obtain r' where "find (\<lambda>r. channel_id r = ''UCxyz'')
        (upsert_channel sample_later (Some ''UCxyz'') None (Some ''http://t/2.jpg'')
          (upsert_all [sample_first_call] [])) = Some r'"
    "channel_title r' = channel_title sample_row" "thumbnail r' = Some ''http://t/2.jpg''"
    "last_used_at r' = isoformat sample_later" "saved_at r' = saved_at sample_row"
    by blast
  then have "\<exists>r'. find (\<lambda>r. channel_id r = ''UCxyz'')
        (upsert_channel sample_later (Some ''UCxyz'') None (Some ''http://t/2.jpg'')
          (upsert_all [sample_first_call] [])) = Some r'
      \<and> channel_title r' = Some ''Acme'' \<and> thumbnail r' = Some ''http://t/2.jpg''
      \<and> last_used_at r' = ''2024-03-09T07:05:00.001500'' \<and> saved_at r' = ''2024-03-09T07:05:00''"
    by (auto simp: iso_later sample_row_def)
  with e f show ?thesis by blast
qed

section \<open>Channel cache: the invariant under sequences of upserts\<close>

text \<open>
  C5. Every sequence of upserts whose clock readings are valid, do not decrease and are
  not before the stamps already in the table preserves the invariant of the table: at
  most one row per channel id, and \<open>saved_at \<le> last_used_at\<close> in every row. The first
  upsert of a non-empty id inserts one row whose \<open>saved_at\<close> and \<open>last_used_at\<close> are the
  text of the call's clock reading; every row of the table is still there after the
  sequence, under its id and with the \<open>saved_at\<close> it had. And
  two upserts of one non-empty id with the same non-null title and thumbnail leave
  exactly one row of that id, whose \<open>saved_at\<close> is the one the first call left and whose
  \<open>last_used_at\<close> is the text of the second call's clock reading.
\<close>

theorem upsert_all_invariant:
  assumes "channels_invariant tbl"
    and "sorted_wrt dt_le (map call_time cs)"
    and "\<forall>c \<in> set cs. valid_datetime (call_time c)"
    and "\<forall>r \<in> set tbl. \<forall>c \<in> set cs. last_used_at r \<le> isoformat (call_time c)"
  shows "channels_invariant (upsert_all cs tbl)
    \<and> (\<forall>cid title thumb t. cid \<noteq> [] \<and> cid \<notin> set (map channel_id tbl) \<longrightarrow>
          rows_of cid (upsert_channel t (Some cid) title thumb tbl)
            = [\<lparr>channel_id = cid, channel_title = title, thumbnail = thumb,
                 saved_at = isoformat t, last_used_at = isoformat t\<rparr>])
    \<and> (\<forall>r \<in> set tbl. \<exists>r' \<in> set (upsert_all cs tbl).
          channel_id r' = channel_id r \<and> saved_at r' = saved_at r)
    \<and> (\<forall>cid title thumb t1 t2. cid \<noteq> [] \<longrightarrow>
          (\<exists>r1 r2.
              rows_of cid (upsert_channel t1 (Some cid) (Some title) (Some thumb) tbl) = [r1]
            \<and> rows_of cid (upsert_channel t2 (Some cid) (Some title) (Some thumb)
                  (upsert_channel t1 (Some cid) (Some title) (Some thumb) tbl)) = [r2]
            \<and> saved_at r2 = saved_at r1 \<and> last_used_at r2 = isoformat t2
            \<and> channel_title r2 = Some title \<and> thumbnail r2 = Some thumb))"
proof (intro conjI allI impI ballI)
  show "channels_invariant (upsert_all cs tbl)"
    using assms by (rule upsert_all_invariant_aux)
next
  fix cid :: string and title thumb :: "string option" and t :: datetime
  assume "cid \<noteq> [] \<and> cid \<notin> set (map channel_id tbl)"
  then show "rows_of cid (upsert_channel t (Some cid) title thumb tbl)
       = [\<lparr>channel_id = cid, channel_title = title, thumbnail = thumb,
            saved_at = isoformat t, last_used_at = isoformat t\<rparr>]"
    by (intro rows_of_insert) simp_all
next
  fix r assume "r \<in> set tbl"
  then show "\<exists>r' \<in> set (upsert_all cs tbl). channel_id r' = channel_id r \<and> saved_at r' = saved_at r"
    by (rule upsert_all_keeps_saved_at)
next
  fix cid :: string and title thumb :: string and t1 t2 :: datetime
  assume "cid \<noteq> []"
  with assms(1) show "\<exists>r1 r2.
      rows_of cid (upsert_channel t1 (Some cid) (Some title) (Some thumb) tbl) = [r1]
    \<and> rows_of cid (upsert_channel t2 (Some cid) (Some title) (Some thumb)
          (upsert_channel t1 (Some cid) (Some title) (Some thumb) tbl)) = [r2]
    \<and> saved_at r2 = saved_at r1 \<and> last_used_at r2 = isoformat t2
    \<and> channel_title r2 = Some title \<and> thumbnail r2 = Some thumb"
    by (intro upsert_twice) (simp_all add: channels_invariant_def)
qed

theorem upsert_all_invariant_witness:
  "distinct (map channel_id [sample_row])
   \<and> sorted_wrt dt_le (map call_time sample_calls)
   \<and> list_all valid_datetime (map call_time sample_calls)
   \<and> distinct (map channel_id (upsert_all sample_calls [sample_row]))
   \<and> list_all (\<lambda>r. saved_at r \<le> last_used_at r) (upsert_all sample_calls [sample_row])
   \<and> map channel_id (upsert_all sample_calls [sample_row]) = [''UCxyz'', ''UCabc'']
   \<and> map saved_at (upsert_all sample_calls [sample_row])
       = [''2024-03-09T07:05:00'', ''2024-03-10T00:00:00'']"
proof -
  have i: "channels_invariant [sample_row]"
    by (simp add: channels_invariant_def sample_row_def)
  have s: "sorted_wrt dt_le (map call_time sample_calls)"
    using sample_less(2) by (simp add: sample_calls_def dt_le_def dt_less_def list_le_def)
  have v: "\<forall>c \<in> set sample_calls. valid_datetime (call_time c)"
    by (simp add: sample_calls_def sample_valid)
  have p: "\<forall>r \<in> set [sample_row]. \<forall>c \<in> set sample_calls. last_used_at r \<le> isoformat (call_time c)"
    by (simp add: sample_calls_def sample_row_def iso_later iso_latest)
  have e: "upsert_all sample_calls [sample_row] =
     [sample_row\<lparr>thumbnail := Some ''http://t/2.jpg'', last_used_at := ''2024-03-09T07:05:00.001500''\<rparr>,
      \<lparr>channel_id = ''UCabc'', channel_title = Some ''Beta'', thumbnail = None,
       saved_at = ''2024-03-10T00:00:00'', last_used_at = ''2024-03-10T00:00:00''\<rparr>]"
    by (simp add: sample_calls_def sample_row_def upsert_channel_def select_id_def update_channel_def
        insert_channel_def iso_later iso_latest Let_def)
  have "channels_invariant (upsert_all sample_calls [sample_row])"
    using upsert_all_invariant [OF i s v p] by blast
  then have "distinct (map channel_id (upsert_all sample_calls [sample_row]))
      \<and> list_all (\<lambda>r. saved_at r \<le> last_used_at r) (upsert_all sample_calls [sample_row])"
    unfolding channels_invariant_def list_all_iff by blast
  moreover have "distinct (map channel_id [sample_row])"
    using i by (simp add: channels_invariant_def)
  moreover have "list_all valid_datetime (map call_time sample_calls)"
    using v by (simp add: list_all_iff)
  moreover have "map channel_id (upsert_all sample_calls [sample_row]) = [''UCxyz'', ''UCabc'']"
    "map saved_at (upsert_all sample_calls [sample_row])
       = [''2024-03-09T07:05:00'', ''2024-03-10T00:00:00'']"
    unfolding e by (simp_all add: sample_row_def)
  ultimately show ?thesis using s by blast
qed

section \<open>Channel listing\<close>

lemma list_channels_mset: "mset (list_channels tbl) = mset tbl"
  by (simp add: list_channels_def)

text \<open>Rows with equal stamps come in the order of insertion.\<close>

lemma list_channels_ties:
  "last_used_at a = last_used_at b \<Longrightarrow> list_channels [a, b] = [a, b]"
  by (simp add: list_channels_def)

lemma list_channels_descending:
  "sorted_wrt (\<lambda>a b. last_used_at b \<le> last_used_at a) (list_channels tbl)"
proof -
  have "sorted (map last_used_at (sort_key last_used_at (rev tbl)))"
    by (rule sorted_sort_key)
  then show ?thesis
    by (simp add: list_channels_def sorted_wrt_rev sorted_wrt_map)
qed

lemma mset_singleD: "mset ys = {#a#} \<Longrightarrow> ys = [a]"
  by simp

lemma filter_single:
  assumes "mset xs = {#a, b, c#}" and "P a" and "\<not> P b" and "\<not> P c"
  shows "filter P xs = [a]"
proof -
  have "mset (filter P xs) = {#a#}"
    using assms by simp
  then show ?thesis by (rule mset_singleD)
qed

lemma sort_key_three:
  fixes f :: "'a \<Rightarrow> 'k::linorder"
  assumes "mset tbl = {#r1, r2, r3#}" and "f r1 < f r2" and "f r2 < f r3"
  shows "sort_key f tbl = [r1, r2, r3]"
proof (rule properties_for_sort_key)
  show "mset [r1, r2, r3] = mset tbl" using assms(1) by simp
  show "sorted (map f [r1, r2, r3])"
    using assms(2,3) less_trans [OF assms(2,3)] by (simp add: less_imp_le)
  fix k assume "k \<in> set [r1, r2, r3]"
  then consider "k = r1" | "k = r2" | "k = r3" by auto
  then show "filter (\<lambda>x. f k = f x) [r1, r2, r3] = filter (\<lambda>x. f k = f x) tbl"
  proof cases
    case 1
    have "filter (\<lambda>x. f k = f x) tbl = [r1]"
      using assms by (intro filter_single [of _ r1 r2 r3]) (auto simp: 1)
    then show ?thesis using assms(2,3) 1 by auto
  next
    case 2
    have "filter (\<lambda>x. f k = f x) tbl = [r2]"
      using assms by (intro filter_single [of _ r2 r1 r3]) (auto simp: 2 add_mset_commute)
    then show ?thesis using assms(2,3) 2 by auto
  next
    case 3
    have "filter (\<lambda>x. f k = f x) tbl = [r3]"
      using assms by (intro filter_single [of _ r3 r1 r2]) (auto simp: 3 add_mset_commute)
    then show ?thesis using assms(2,3) 3 by auto
  qed
qed

text \<open>
  C6. For every table, the listing returns all the rows, ordered by \<open>last_used_at\<close>
  descending; and when the table holds three rows last touched at the valid clock
  readings \<open>t1 < t2 < t3\<close>, in whatever order they are stored, the listing returns them
  in the order \<open>t3\<close>, \<open>t2\<close>, \<open>t1\<close>.
\<close>

theorem list_channels_order:
  "mset (list_channels tbl) = mset tbl
   \<and> sorted_wrt (\<lambda>a b. last_used_at b \<le> last_used_at a) (list_channels tbl)
   \<and> (valid_datetime t1 \<and> valid_datetime t2 \<and> valid_datetime t3 \<and> dt_less t1 t2 \<and> dt_less t2 t3
        \<and> mset tbl = {#r1, r2, r3#}
        \<and> last_used_at r1 = isoformat t1 \<and> last_used_at r2 = isoformat t2 \<and> last_used_at r3 = isoformat t3
      \<longrightarrow> list_channels tbl = [r3, r2, r1])"
proof (intro conjI impI)
  show "mset (list_channels tbl) = mset tbl" by (rule list_channels_mset)
  show "sorted_wrt (\<lambda>a b. last_used_at b \<le> last_used_at a) (list_channels tbl)"
    by (rule list_channels_descending)
  assume a: "valid_datetime t1 \<and> valid_datetime t2 \<and> valid_datetime t3 \<and> dt_less t1 t2 \<and> dt_less t2 t3
        \<and> mset tbl = {#r1, r2, r3#}
        \<and> last_used_at r1 = isoformat t1 \<and> last_used_at r2 = isoformat t2 \<and> last_used_at r3 = isoformat t3"
  then have "last_used_at r1 < last_used_at r2" "last_used_at r2 < last_used_at r3"
    by (simp_all add: isoformat_mono)
  with a have "sort_key last_used_at (rev tbl) = [r1, r2, r3]"
    by (intro sort_key_three) simp_all
  then show "list_channels tbl = [r3, r2, r1]"
    by (simp add: list_channels_def)
qed

theorem list_channels_order_witness:
  "valid_datetime sample_now \<and> valid_datetime sample_later \<and> valid_datetime sample_latest
   \<and> dt_less sample_now sample_later \<and> dt_less sample_later sample_latest
   \<and> list_channels [sample_row2, sample_row3, sample_row] = [sample_row3, sample_row2, sample_row]"
proof -
  have m: "mset [sample_row2, sample_row3, sample_row] = {#sample_row, sample_row2, sample_row3#}"
    by (simp add: add_mset_commute)
  have l: "last_used_at sample_row = isoformat sample_now" "last_used_at sample_row2 = isoformat sample_later"
    "last_used_at sample_row3 = isoformat sample_latest"
    by (simp_all add: iso_now iso_later iso_latest sample_row_def sample_row2_def sample_row3_def)
  show ?thesis
    using list_channels_order [of "[sample_row2, sample_row3, sample_row]" sample_now sample_later
        sample_latest sample_row sample_row2 sample_row3] m l sample_valid sample_less
    by blast
qed

section \<open>Code points of Latin-1 text\<close>

lemma to_ustring_append: "to_ustring (a @ b) = to_ustring a @ to_ustring b"
  by (simp add: to_ustring_def)

lemma char_of_to_ustring: "map char_of (to_ustring s) = s"
  by (induction s) (simp_all add: to_ustring_def)

lemma latin1_encode_to_ustring: "latin1_encode (to_ustring s) = Inr s"
  by (simp add: latin1_encode_def char_of_to_ustring) (simp add: to_ustring_def list_all_iff)




lemma u_is_word_of_char: "u_is_word wide (of_char c) = is_word c"
  by (simp add: u_is_word_def)

lemma of_char_eq_code:
  "(of_char c :: nat) = 45 \<longleftrightarrow> c = CHR ''-''"
  "(of_char c :: nat) = 32 \<longleftrightarrow> c = CHR '' ''"
  "(of_char c :: nat) = 46 \<longleftrightarrow> c = CHR ''.''"
  "(of_char c :: nat) = 10 \<longleftrightarrow> c = CHR 0x0A"
proof -
  have "(of_char (CHR ''-'') :: nat) = 45" "(of_char (CHR '' '') :: nat) = 32"
    "(of_char (CHR ''.'') :: nat) = 46" "(of_char (CHR 0x0A) :: nat) = 10"
    by simp_all
  then show "(of_char c :: nat) = 45 \<longleftrightarrow> c = CHR ''-''" "(of_char c :: nat) = 32 \<longleftrightarrow> c = CHR '' ''"
    "(of_char c :: nat) = 46 \<longleftrightarrow> c = CHR ''.''" "(of_char c :: nat) = 10 \<longleftrightarrow> c = CHR 0x0A"
    by (metis of_char_eq_iff)+
qed

lemma u_unsafe_of_char: "u_unsafe_name_char wide (of_char c) = unsafe_name_char c"
  by (simp add: u_unsafe_name_char_def unsafe_name_char_def u_is_word_of_char of_char_eq_code)


section \<open>The streamed file and its deletion\<close>

lemma read_chunk_Yield:
  "read_chunk p files u = (Yield c, files', g') \<Longrightarrow> files' = files \<and> g' = Suspended (drop chunk_size u)"
  by (auto simp: read_chunk_def Let_def split: if_splits)

lemma read_chunk_Stop:
  "read_chunk p files u = (StopIteration, files', g') \<Longrightarrow> files' p = None"
  by (auto simp: read_chunk_def Let_def os_remove_def split: if_splits)

lemma read_chunk_Raise: "read_chunk p files u \<noteq> (Raise e, files', g')"
  by (auto simp: read_chunk_def Let_def split: if_splits)

lemma next_not_Finished:
  "g \<noteq> Finished \<Longrightarrow> stream_and_delete_next p files g = (Yield c, files', g') \<Longrightarrow> g' \<noteq> Finished"
  by (cases g) (auto dest: read_chunk_Yield split: option.splits)

lemma next_Stop:
  "g \<noteq> Finished \<Longrightarrow> stream_and_delete_next p files g = (StopIteration, files', g') \<Longrightarrow> files' p = None"
  by (cases g) (auto dest: read_chunk_Stop split: option.splits)

lemma next_Raise:
  "stream_and_delete_next p files g = (Raise e, files', g') \<Longrightarrow> files' p = None"
  by (cases g) (auto simp: read_chunk_Raise split: option.splits)

lemma re_sub_class_map: "re_sub_class P [c] s = map (\<lambda>x. if P x then c else x) s"
  by (induction s) (simp_all add: re_sub_class_def)

lemma replace_char_map: "replace_char a [c] s = map (\<lambda>x. if x = a then c else x) s"
  by (induction s) (simp_all add: replace_char_def)

lemma underscore_code: "to_ustring ''_'' = [95]"
  by (simp add: to_ustring_def)

lemma filename_safe_map:
  "filename_safe_of wide t
     = map (\<lambda>n. if u_is_word wide n \<or> n \<in> {45, 32, 46} then n else 95) t @ to_ustring ''.mp4''"
  by (simp add: filename_safe_of_def underscore_code re_sub_class_map u_unsafe_name_char_def
      cong: if_cong)



lemma filename_safe_latin1:
  "filename_safe_of wide (to_ustring s)
     = to_ustring (map (\<lambda>c. if unsafe_name_char c then CHR ''_'' else c) s @ ''.mp4'')"
  by (simp add: filename_safe_of_def underscore_code re_sub_class_map)
     (simp add: to_ustring_def u_unsafe_of_char)


lemma filename_safe_video: "filename_safe_of wide (to_ustring ''video'') = to_ustring ''video.mp4''"
  by (simp only: filename_safe_latin1) (simp add: class_defs)

lemma header_video:
  "latin1_encode (to_ustring ''attachment; filename='' @ filename_safe_of wide (to_ustring ''video''))
     = Inr ''attachment; filename=video.mp4''"
  by (simp only: filename_safe_video to_ustring_append [symmetric] latin1_encode_to_ustring) simp

text \<open>A client that reads to the end leaves no file at the path, whatever the file held.\<close>

lemma read_to_end_removes:
  "g \<noteq> Finished \<Longrightarrow> read_to_end p files g = (chunks, err, files') \<Longrightarrow> files' p = None"
proof (induction p files g arbitrary: chunks err files' rule: read_to_end.induct)
  case (1 p files g)
  obtain ev f1 g1 where step: "stream_and_delete_next p files g = (ev, f1, g1)"
    by (cases "stream_and_delete_next p files g") auto
  show ?case
  proof (cases ev)
    case (Yield c)
    obtain cs er f2 where rest: "read_to_end p f1 g1 = (cs, er, f2)"
      by (cases "read_to_end p f1 g1") auto
    have "g1 \<noteq> Finished"
      using next_not_Finished [OF "1.prems"(1)] step Yield by simp
    then have "f2 p = None"
      using "1.IH" [OF step [symmetric] Yield refl _ rest] by simp
    moreover have "files' = f2"
      using "1.prems"(2) step Yield rest by (subst (asm) read_to_end.simps) simp
    ultimately show ?thesis by simp
  next
    case StopIteration
    then have "files' = f1"
      using "1.prems"(2) step by (subst (asm) read_to_end.simps) simp
    then show ?thesis
      using next_Stop [OF "1.prems"(1)] step StopIteration by simp
  next
    case (Raise e)
    then have "files' = f1"
      using "1.prems"(2) step by (subst (asm) read_to_end.simps) simp
    then show ?thesis
      using next_Raise step Raise by simp
  qed
qed

lemma sample_download:
  "download sample_env sample_world ''https://youtu.be/abc123X'' =
     (\<lparr>db = [], files_of = [''/srv/downloads/0f3a.mp4'' \<mapsto> ''abc''], api_calls = []\<rparr>,
      Inr \<lparr>media_type = ''video/mp4'',
           content_disposition = ''attachment; filename=video.mp4'',
           body_path = ''/srv/downloads/0f3a.mp4'',
           body = Created\<rparr>)"
  by (simp add: download_def sample_clean fetch_metadata_def extract_info_def sample_env_def
      sample_world_def resolve_final_path_def endswith_def header_video)

lemma read_to_end_sample:
  "files_of (serve_body read_to_end
       (download sample_env sample_world ''https://youtu.be/abc123X''))
     ''/srv/downloads/0f3a.mp4'' = None"
proof -
  obtain cs er f where r: "read_to_end ''/srv/downloads/0f3a.mp4'' [''/srv/downloads/0f3a.mp4'' \<mapsto> ''abc''] Created = (cs, er, f)"
    using prod_cases3 by blast
  then have "f ''/srv/downloads/0f3a.mp4'' = None"
    using read_to_end_removes [of Created] by blast
  then show ?thesis
    by (simp add: sample_download serve_body_def r)
qed

text \<open>
  C1. The file is deleted when the client reads the body to its end, but not in the
  other outcome: for the sample download, whose file holds three bytes, a client that
  disconnects after the first chunk leaves the file at the resolved path in place, with
  its contents. The generator is closed at its \<open>yield\<close>, and \<open>os.remove\<close> stands after the
  \<open>with\<close> block, outside any \<open>finally\<close>.
\<close>

theorem stream_and_delete_disconnect:
  "files_of (serve_body (read_then_disconnect 1)
       (download sample_env sample_world ''https://youtu.be/abc123X''))
     ''/srv/downloads/0f3a.mp4'' = Some ''abc''
   \<and> files_of (serve_body read_to_end
       (download sample_env sample_world ''https://youtu.be/abc123X''))
     ''/srv/downloads/0f3a.mp4'' = None"
  using read_to_end_sample
  by (simp add: sample_download serve_body_def read_chunk_def chunk_size_def Let_def)

section \<open>Download when the metadata fetch fails\<close>



section \<open>The file name of the download\<close>







text \<open>A title of word characters above U+00FF is kept by the substitution, the header
  cannot be encoded, and the request ends in the error response with the file written.\<close>

lemma sample_download_wide:
  "download sample_env_wide sample_world ''https://youtu.be/abc123X'' =
     (\<lparr>db = [\<lparr>channel_id = ''UCxyz'', channel_title = Some ''Acme'', thumbnail = Some ''http://t/1.jpg'',
             saved_at = isoformat sample_now, last_used_at = isoformat sample_now\<rparr>],
       files_of = [''/srv/downloads/0f3a.mp4'' \<mapsto> ''abc''], api_calls = []\<rparr>,
      Inl UnicodeEncodeError)"
  by (simp add: download_def sample_clean fetch_metadata_def extract_info_def sample_env_def
      sample_env_wide_def sample_info_def upsert_channel_call_def upsert_channel_def select_id_def
      insert_channel_def sample_world_def resolve_final_path_def endswith_def
      title_for_name_of_def u_strip_def u_is_space_def replace_char_map filename_safe_map
      u_is_word_def sample_wide_def latin1_encode_def to_ustring_def Let_def)




section \<open>Channel-video lister without credential\<close>

text \<open>
  C8. When no API key is configured (the variable is unset or empty), the channel-video
  listing answers 400 for every channel id, page token and page size, and the state of
  the service, which includes the list of calls made to the external API, is unchanged:
  no external call is made.
\<close>

theorem channel_videos_no_key:
  assumes "YOUTUBE_API_KEY e = None \<or> YOUTUBE_API_KEY e = Some []"
  shows "channel_videos e w chan_id page_token max_results
       = (w, Inl (HTTPException 400 ''Server missing YT_API_KEY env var for channel listing''))"
  using assms by (auto simp: channel_videos_def)

theorem channel_videos_no_key_witness:
  "YOUTUBE_API_KEY sample_env = None
   \<and> channel_videos sample_env sample_world ''UCxyz'' None 20
       = (sample_world, Inl (HTTPException 400 ''Server missing YT_API_KEY env var for channel listing''))"
  using channel_videos_no_key [of sample_env sample_world "''UCxyz''" None 20]
  by (simp add: sample_env_def)

end
